theory Spec2Isabelle
  imports Complex_Main "HOL-Library.Word" "HOL-Library.AList"
begin

unbundle bit_operations_syntax

section \<open>Data model\<close>

text \<open>
  In the similarity engine JavaScript numbers are exact reals (scores, histogram entries,
  embedding components), and naturals or integers where the code counts; the rounding of
  its floating-point operations and the values NaN and Infinity are outside the model.
  The colour histogram of hasher.js is a \<^verbatim>\<open>Float32Array\<close> and is modelled with its
  rounding.
  A value that may be missing (\<^verbatim>\<open>null\<close>, \<^verbatim>\<open>undefined\<close>, an absent field) is an
  \<open>option\<close>. Arrays are truthy in JavaScript even when empty; strings are falsy when
  empty.

  A cache record as \<^verbatim>\<open>_indexPhash\<close> and \<^verbatim>\<open>_indexClip\<close> write it:
  \<^verbatim>\<open>{ pHash, colorHistogram, embedding, ext }\<close>, every field possibly absent. The
  program reads no other property of a record, and a record stands for its four.
\<close>

record hashData =
  pHash :: "string option"
  colorHistogram :: "real list option"
  embedding :: "real list option"
  ext :: "string option"

text \<open>\<^verbatim>\<open>!s\<close> for a string value that may be missing: missing or empty.\<close>

definition falsyStr :: "string option \<Rightarrow> bool" where
  "falsyStr s = (case s of None \<Rightarrow> True | Some t \<Rightarrow> t = [])"

section \<open>similarity.js\<close>

definition MODE_PHASH :: string where "MODE_PHASH = ''phash''"
definition MODE_CLIP :: string where "MODE_CLIP = ''clip''"
definition MODE_HYBRID :: string where "MODE_HYBRID = ''hybrid''"

definition PHASH_WEIGHT :: real where "PHASH_WEIGHT = 25 / 100"
definition COLOR_WEIGHT :: real where "COLOR_WEIGHT = 15 / 100"
definition CLIP_WEIGHT :: real where "CLIP_WEIGHT = 60 / 100"

definition MAX_HAMMING_BITS :: nat where "MAX_HAMMING_BITS = 256"

subsection \<open>hammingDistance\<close>

text \<open>
  \<^verbatim>\<open>parseInt(c, 16)\<close> of a one-character string: the digit's value, or NaN (here
  \<open>None\<close>) when the character is no hexadecimal digit.
\<close>

definition hexTable :: "(char \<times> nat) list" where
  "hexTable =
    [(CHR ''0'', 0), (CHR ''1'', 1), (CHR ''2'', 2), (CHR ''3'', 3),
     (CHR ''4'', 4), (CHR ''5'', 5), (CHR ''6'', 6), (CHR ''7'', 7),
     (CHR ''8'', 8), (CHR ''9'', 9),
     (CHR ''a'', 10), (CHR ''b'', 11), (CHR ''c'', 12), (CHR ''d'', 13),
     (CHR ''e'', 14), (CHR ''f'', 15),
     (CHR ''A'', 10), (CHR ''B'', 11), (CHR ''C'', 12), (CHR ''D'', 13),
     (CHR ''E'', 14), (CHR ''F'', 15)]"

definition parseInt16 :: "char \<Rightarrow> nat option" where
  "parseInt16 c = map_of hexTable c"

text \<open>
  The operands of \<^verbatim>\<open>n1 ^ n2\<close> are converted with ToInt32, which sends NaN to 0. The
  values are in \<open>0..15\<close>, so the 32-bit result is a small non-negative number and
  \<^verbatim>\<open>>>= 1\<close> halves it.
\<close>

definition toInt32 :: "nat option \<Rightarrow> nat" where
  "toInt32 v = (case v of None \<Rightarrow> 0 | Some n \<Rightarrow> n)"

text \<open>
  \<^verbatim>\<open>while (xor) { distance += xor & 1; xor >>= 1; }\<close>
\<close>

function bitLoop :: "nat \<Rightarrow> nat \<Rightarrow> nat" where
  "bitLoop x distance =
     (if x \<noteq> 0 then bitLoop (drop_bit 1 x) (distance + (x AND 1)) else distance)"
  by pat_completeness auto
termination
  by (relation "measure (\<lambda>(x, d). x)") (auto simp: drop_bit_eq_div)

declare bitLoop.simps [simp del]

text \<open>
  The \<^verbatim>\<open>for\<close> loop over the characters; it runs only when both strings have the same
  length, so it walks the two strings together.
\<close>

fun hammingLoop :: "string \<Rightarrow> string \<Rightarrow> nat \<Rightarrow> nat" where
  "hammingLoop (c1 # h1) (c2 # h2) distance =
     hammingLoop h1 h2 (bitLoop (toInt32 (parseInt16 c1) XOR toInt32 (parseInt16 c2)) distance)"
| "hammingLoop _ _ distance = distance"

definition hammingDistance :: "string option \<Rightarrow> string option \<Rightarrow> nat" where
  "hammingDistance hash1 hash2 =
     (if falsyStr hash1 \<or> falsyStr hash2 \<or> length (the hash1) \<noteq> length (the hash2)
      then MAX_HAMMING_BITS
      else hammingLoop (the hash1) (the hash2) 0)"

subsection \<open>pHashScore\<close>

definition pHashScore :: "string option \<Rightarrow> string option \<Rightarrow> real" where
  "pHashScore hash1 hash2 =
     (let dist = hammingDistance hash1 hash2
      in 1 - real dist / real MAX_HAMMING_BITS)"

subsection \<open>histogramSimilarity\<close>

text \<open>
  The loop accumulates \<^verbatim>\<open>dot\<close>, \<^verbatim>\<open>mag1\<close> and \<^verbatim>\<open>mag2\<close> together; it runs only when
  the two arrays have the same length.
\<close>

fun histLoop :: "real list \<Rightarrow> real list \<Rightarrow> real \<times> real \<times> real \<Rightarrow> real \<times> real \<times> real" where
  "histLoop (x # hist1) (y # hist2) (dot, mag1, mag2) =
     histLoop hist1 hist2 (dot + x * y, mag1 + x * x, mag2 + y * y)"
| "histLoop _ _ acc = acc"

definition histogramSimilarity :: "real list option \<Rightarrow> real list option \<Rightarrow> real" where
  "histogramSimilarity hist1 hist2 =
     (case (hist1, hist2) of
        (Some h1, Some h2) \<Rightarrow>
          if length h1 \<noteq> length h2 then 0
          else
            (case histLoop h1 h2 (0, 0, 0) of (dot, m1, m2) \<Rightarrow>
               let mag1 = sqrt m1; mag2 = sqrt m2
               in if mag1 = 0 \<or> mag2 = 0 then 0 else dot / (mag1 * mag2))
      | _ \<Rightarrow> 0)"

subsection \<open>clipSimilarity\<close>

fun dotLoop :: "real list \<Rightarrow> real list \<Rightarrow> real \<Rightarrow> real" where
  "dotLoop (x # emb1) (y # emb2) dot = dotLoop emb1 emb2 (dot + x * y)"
| "dotLoop _ _ dot = dot"

definition clipSimilarity :: "real list option \<Rightarrow> real list option \<Rightarrow> real" where
  "clipSimilarity emb1 emb2 =
     (case (emb1, emb2) of
        (Some e1, Some e2) \<Rightarrow>
          if length e1 \<noteq> length e2 then 0
          else (max (- 1) (min 1 (dotLoop e1 e2 0)) + 1) / 2
      | _ \<Rightarrow> 0)"

subsection \<open>combinedScore\<close>

text \<open>
  The query descriptor has the same three fields as a cache record. Every mode string
  other than \<^verbatim>\<open>'clip'\<close> and \<^verbatim>\<open>'phash'\<close> takes the hybrid branch.
\<close>

definition combinedScore :: "hashData \<Rightarrow> hashData \<Rightarrow> string \<Rightarrow> real" where
  "combinedScore queryData candidateData mode =
     (if mode = MODE_CLIP then
        (if embedding queryData = None \<or> embedding candidateData = None then 0
         else clipSimilarity (embedding queryData) (embedding candidateData))
      else if mode = MODE_PHASH then
        (let pScore = pHashScore (pHash queryData) (pHash candidateData);
             cScore = histogramSimilarity (colorHistogram queryData) (colorHistogram candidateData)
         in 6 / 10 * pScore + 4 / 10 * cScore)
      else
        (let pScore = (if \<not> falsyStr (pHash queryData) \<and> \<not> falsyStr (pHash candidateData)
                       then pHashScore (pHash queryData) (pHash candidateData) else 0);
             cScore = (if colorHistogram queryData \<noteq> None \<and> colorHistogram candidateData \<noteq> None
                       then histogramSimilarity (colorHistogram queryData) (colorHistogram candidateData)
                       else 0);
             eScore = (if embedding queryData \<noteq> None \<and> embedding candidateData \<noteq> None
                       then clipSimilarity (embedding queryData) (embedding candidateData) else 0)
         in if embedding queryData = None \<or> embedding candidateData = None
            then 6 / 10 * pScore + 4 / 10 * cScore
            else PHASH_WEIGHT * pScore + COLOR_WEIGHT * cScore + CLIP_WEIGHT * eScore))"

subsection \<open>findSimilar\<close>

record scored =
  rid :: string
  score :: real

text \<open>
  \<^verbatim>\<open>cacheItems\<close> is given as the list of its keys in \<^verbatim>\<open>Object.keys\<close> order, each with
  its value; a value may be falsy (\<open>None\<close>). \<^verbatim>\<open>excludeId\<close> is an item id or
  \<^verbatim>\<open>null\<close>; \<^verbatim>\<open>mode\<close> may be missing or empty, and then the pixel mode is used.
\<close>

fun scanLoop ::
  "hashData \<Rightarrow> real \<Rightarrow> string option \<Rightarrow> string \<Rightarrow> (string \<times> hashData option) list \<Rightarrow>
   scored list \<Rightarrow> scored list" where
  "scanLoop queryData thresholdNorm excludeId searchMode [] results = results"
| "scanLoop queryData thresholdNorm excludeId searchMode ((i, cand) # rest) results =
     (if Some i = excludeId then scanLoop queryData thresholdNorm excludeId searchMode rest results
      else case cand of
        None \<Rightarrow> scanLoop queryData thresholdNorm excludeId searchMode rest results
      | Some candidate \<Rightarrow>
          if searchMode = MODE_CLIP \<and> embedding candidate = None
          then scanLoop queryData thresholdNorm excludeId searchMode rest results
          else if searchMode = MODE_PHASH \<and> falsyStr (pHash candidate)
          then scanLoop queryData thresholdNorm excludeId searchMode rest results
          else
            (let s = combinedScore queryData candidate searchMode
             in if s \<ge> thresholdNorm
                then scanLoop queryData thresholdNorm excludeId searchMode rest
                       (results @ [\<lparr>rid = i, score = s\<rparr>])
                else scanLoop queryData thresholdNorm excludeId searchMode rest results))"

text \<open>
  \<^verbatim>\<open>results.sort((a, b) => b.score - a.score)\<close>: the sort is stable, entries with
  the greater score first.
\<close>

definition sortByScore :: "scored list \<Rightarrow> scored list" where
  "sortByScore results = sort_key (\<lambda>r. - score r) results"

text \<open>
  \<^verbatim>\<open>results.slice(0, end)\<close> for an integer \<^verbatim>\<open>end\<close>: a negative end counts from the
  end of the array.
\<close>

definition slice0 :: "int \<Rightarrow> 'a list \<Rightarrow> 'a list" where
  "slice0 e xs =
     (let len = int (length xs);
          final = (if e < 0 then max (len + e) 0 else min e len)
      in take (nat final) xs)"

definition findSimilar ::
  "hashData \<Rightarrow> (string \<times> hashData option) list \<Rightarrow> real \<Rightarrow> int \<Rightarrow> string option \<Rightarrow>
   string option \<Rightarrow> scored list" where
  "findSimilar queryData cacheItems threshold maxResults excludeId mode =
     (let thresholdNorm = threshold / 100;
          searchMode = (if falsyStr mode then MODE_PHASH else the mode);
          results = scanLoop queryData thresholdNorm excludeId searchMode cacheItems []
      in slice0 maxResults (sortByScore results))"

text \<open>A hash string of at most 256 bits: at most 64 hexadecimal characters, or missing.\<close>

definition within256 :: "string option \<Rightarrow> bool" where
  "within256 h = (case h of None \<Rightarrow> True | Some s \<Rightarrow> length s \<le> 64)"

text \<open>
  The magnitude of a vector as \<^verbatim>\<open>histogramSimilarity\<close> computes it: the square root of
  the sum of the squares.
\<close>

definition magnitude :: "real list \<Rightarrow> real" where
  "magnitude h = sqrt (sum_list (map (\<lambda>x. x * x) h))"

section \<open>hasher.js\<close>

definition BINS_PER_CHANNEL :: nat where "BINS_PER_CHANNEL = 4"

text \<open>
  \<^verbatim>\<open>binIndex\<close> of a pixel: each channel is quantised with
  \<^verbatim>\<open>Math.min(Math.floor(v / 64), 3)\<close>.
\<close>

definition binOf :: "8 word \<Rightarrow> nat" where
  "binOf v = min (unat v div 64) 3"

definition binIndex :: "8 word \<Rightarrow> 8 word \<Rightarrow> 8 word \<Rightarrow> nat" where
  "binIndex r g b = binOf r * 16 + binOf g * 4 + binOf b"

text \<open>
  The histogram is a \<^verbatim>\<open>Float32Array\<close>. While the pixels are counted its entries are
  whole numbers, and \<^verbatim>\<open>histogram[binIndex]++\<close> stores \<open>v + 1\<close> rounded to a 32-bit
  float: exact below \<open>2\<^bsup>24\<^esup> = 16777216\<close>, and at \<open>2\<^bsup>24\<^esup>\<close> the sum \<open>2\<^bsup>24\<^esup> + 1\<close> lies
  halfway between two floats and rounds back to \<open>2\<^bsup>24\<^esup>\<close> (ties to even).
\<close>

definition incF32 :: "nat \<Rightarrow> nat" where
  "incF32 v = (if v < 16777216 then v + 1 else v)"

text \<open>
  The loop \<^verbatim>\<open>for (let i = 0; i < data.length; i += 4)\<close> over the bytes of the image
  data, four bytes (red, green, blue, alpha) to a pixel, carrying \<^verbatim>\<open>histogram\<close> and
  \<^verbatim>\<open>pixelCount\<close>. The data of a canvas always has a multiple of four bytes. The last
  three equations say what the loop body does on a buffer cut short, where the missing
  bytes read as \<^verbatim>\<open>undefined\<close>: the test \<^verbatim>\<open>alpha < 128\<close> is false, so the pixel is
  counted; with a missing colour byte the bin index is NaN and the write to the typed
  array does nothing.
\<close>

fun pixelLoop :: "8 word list \<Rightarrow> nat list \<times> nat \<Rightarrow> nat list \<times> nat" where
  "pixelLoop (r # g # b # alpha # rest) (histogram, pixelCount) =
     (if unat alpha < 128 then pixelLoop rest (histogram, pixelCount)
      else pixelLoop rest
             (histogram[binIndex r g b := incF32 (histogram ! binIndex r g b)], pixelCount + 1))"
| "pixelLoop [r, g, b] (histogram, pixelCount) =
     (histogram[binIndex r g b := incF32 (histogram ! binIndex r g b)], pixelCount + 1)"
| "pixelLoop [r, g] (histogram, pixelCount) = (histogram, pixelCount + 1)"
| "pixelLoop [r] (histogram, pixelCount) = (histogram, pixelCount + 1)"
| "pixelLoop [] (histogram, pixelCount) = (histogram, pixelCount)"

text \<open>
  Rounding to a binary floating-point format with \<open>p\<close> significant bits, to nearest
  with ties to even, for a quotient \<open>a / b\<close> with \<open>0 < a \<le> b\<close> (a bin count by the pixel
  count). \<open>scaleFor\<close> finds the least \<open>k \<ge> p - 1\<close> with \<open>2\<^bsup>p-1\<^esup> \<le> a * 2\<^sup>k / b\<close>, so that
  \<open>a * 2\<^sup>k / b\<close> lies in \<open>[2\<^bsup>p-1\<^esup>, 2\<^sup>p)\<close>; \<open>roundHalfEven\<close> is the nearest integer
  to a quotient, the even one on a tie; the rounded value is \<open>n / 2\<^sup>k\<close>, returned as the
  pair \<open>(n, k)\<close>. A pixel count a typed array can reach (below \<open>2\<^bsup>53\<^esup>\<close>) keeps these
  quotients inside the normal range of both formats.
\<close>

definition roundHalfEven :: "nat \<Rightarrow> nat \<Rightarrow> nat" where
  "roundHalfEven num den =
     (let f = num div den; r = num mod den
      in if 2 * r > den then f + 1
         else if 2 * r < den then f
         else if even f then f else f + 1)"

function scaleFor :: "nat \<Rightarrow> nat \<Rightarrow> nat \<Rightarrow> nat \<Rightarrow> nat" where
  "scaleFor p a b k =
     (if a = 0 \<or> b * 2 ^ (p - 1) \<le> a * 2 ^ k then k else scaleFor p a b (k + 1))"
  by pat_completeness auto
termination
proof (relation "measure (\<lambda>(p, a, b, k). b * 2 ^ (p - 1) - a * 2 ^ k)")
  show "wf (measure (\<lambda>(p, a, b, k). b * 2 ^ (p - 1) - a * 2 ^ k))"
    by simp
next
  fix p a b k :: nat
  assume "\<not> (a = 0 \<or> b * 2 ^ (p - 1) \<le> a * 2 ^ k)"
  then have "0 < a" "a * 2 ^ k < b * 2 ^ (p - 1)" by auto
  moreover from \<open>0 < a\<close> have "a * 2 ^ k < a * 2 ^ (k + 1)" by simp
  ultimately have "b * 2 ^ (p - 1) - a * 2 ^ (k + 1) < b * 2 ^ (p - 1) - a * 2 ^ k"
    by (intro diff_less_mono2)
  then show "((p, a, b, k + 1), (p, a, b, k))
      \<in> measure (\<lambda>(p, a, b, k). b * 2 ^ (p - 1) - a * 2 ^ k)"
    by simp
qed

declare scaleFor.simps [simp del]

definition roundQuot :: "nat \<Rightarrow> nat \<Rightarrow> nat \<Rightarrow> nat \<times> nat" where
  "roundQuot p a b =
     (if a = 0 then (0, 0)
      else (let k = scaleFor p a b (p - 1) in (roundHalfEven (a * 2 ^ k) b, k)))"

text \<open>
  \<^verbatim>\<open>histogram[i] /= pixelCount\<close>: the quotient is computed as a double (53 significant
  bits) and stored in the \<^verbatim>\<open>Float32Array\<close> (24 significant bits).
  \<^verbatim>\<open>Array.from\<close> then reads the floats back exactly.
\<close>

definition divF32 :: "nat \<Rightarrow> nat \<Rightarrow> real" where
  "divF32 v pixelCount =
     (case roundQuot 53 v pixelCount of
        (m, j) \<Rightarrow> (case roundQuot 24 m (2 ^ j) of (n, k) \<Rightarrow> real n / 2 ^ k))"

text \<open>
  \<^verbatim>\<open>computeColorHistogram\<close> on the decoded image data (\<^verbatim>\<open>imageData.data\<close>): a zeroed array of
  \<open>4\<^sup>3 = 64\<close> bins, the counting loop, and the normalisation when a pixel was counted.
\<close>

definition computeColorHistogram :: "8 word list \<Rightarrow> real list" where
  "computeColorHistogram pixels =
     (let totalBins = BINS_PER_CHANNEL ^ 3;
          (histogram, pixelCount) = pixelLoop pixels (replicate totalBins 0, 0)
      in if pixelCount > 0 then map (\<lambda>v. divF32 v pixelCount) histogram
         else map real histogram)"

section \<open>cache.js\<close>

text \<open>
  \<^verbatim>\<open>items\<close> is a plain JavaScript object used as a dictionary. Its own properties are a
  list of keys with their records, in the order the keys were added, every key once. Its
  prototype is \<^verbatim>\<open>Object.prototype\<close> (\<open>None\<close>) until the key \<^verbatim>\<open>__proto__\<close> is assigned:
  that assignment runs the setter inherited from \<^verbatim>\<open>Object.prototype\<close> and makes the
  assigned record the prototype.
\<close>

record ItemsObject =
  own :: "(string \<times> hashData) list"
  proto :: "hashData option"

text \<open>
  What a property read \<^verbatim>\<open>items[key]\<close> can give: a record, a function inherited from
  \<^verbatim>\<open>Object.prototype\<close> (named by its key), \<^verbatim>\<open>Object.prototype\<close> itself, or, through a
  record that has become the prototype, one of that record's strings or arrays.
\<close>

datatype jsValue = Rec hashData | Fn string | ObjProto | Str string | Arr "real list"

definition objectPrototypeKeys :: "string list" where
  "objectPrototypeKeys =
     [''constructor'', ''__defineGetter__'', ''__defineSetter__'', ''hasOwnProperty'',
      ''__lookupGetter__'', ''__lookupSetter__'', ''isPrototypeOf'', ''propertyIsEnumerable'',
      ''toString'', ''valueOf'', ''__proto__'', ''toLocaleString'']"

text \<open>The property \<open>key\<close> of a record object, \<open>None\<close> when it is absent or undefined.\<close>

definition recordProperty :: "hashData \<Rightarrow> string \<Rightarrow> jsValue option" where
  "recordProperty r key =
     (if key = ''pHash'' then map_option Str (pHash r)
      else if key = ''colorHistogram'' then map_option Arr (colorHistogram r)
      else if key = ''embedding'' then map_option Arr (embedding r)
      else if key = ''ext'' then map_option Str (ext r)
      else None)"

text \<open>
  \<^verbatim>\<open>items[key]\<close>, \<open>None\<close> for \<^verbatim>\<open>undefined\<close>: an own property first, then the prototype
  chain. The getter of \<^verbatim>\<open>__proto__\<close> returns the prototype of \<^verbatim>\<open>items\<close>.
\<close>

definition getItem :: "ItemsObject \<Rightarrow> string \<Rightarrow> jsValue option" where
  "getItem obj key =
     (case map_of (own obj) key of
        Some r \<Rightarrow> Some (Rec r)
      | None \<Rightarrow>
          (case (case proto obj of None \<Rightarrow> None | Some p \<Rightarrow> recordProperty p key) of
             Some v \<Rightarrow> Some v
           | None \<Rightarrow>
               if key = ''__proto__''
               then Some (case proto obj of None \<Rightarrow> ObjProto | Some p \<Rightarrow> Rec p)
               else if key \<in> set objectPrototypeKeys then Some (Fn key)
               else None))"

text \<open>
  \<^verbatim>\<open>items[key] = hashData\<close>: an own property is replaced; otherwise the key
  \<^verbatim>\<open>__proto__\<close> reaches the inherited setter, and any other key becomes a new own
  property (an inherited data property is writable and is shadowed).
\<close>

definition setItem :: "string \<Rightarrow> hashData \<Rightarrow> ItemsObject \<Rightarrow> ItemsObject" where
  "setItem key hashData obj =
     (if key = ''__proto__'' \<and> map_of (own obj) key = None
      then obj\<lparr>proto := Some hashData\<rparr>
      else obj\<lparr>own := AList.update key hashData (own obj)\<rparr>)"

text \<open>Truthiness: of these values only the empty string is falsy.\<close>

fun truthy :: "jsValue \<Rightarrow> bool" where
  "truthy (Str s) = (s \<noteq> [])"
| "truthy _ = True"

text \<open>The cache document \<^verbatim>\<open>{ version, libraryPath, items }\<close>.\<close>

record CacheDocument =
  version :: int
  libraryPath :: string
  items :: ItemsObject

text \<open>
  The document as JSON text holds it: of \<^verbatim>\<open>items\<close> only the own properties are
  written by \<^verbatim>\<open>JSON.stringify\<close>, and \<^verbatim>\<open>JSON.parse\<close> makes every key of the text an
  own property of a fresh object.
\<close>

record StoredDocument =
  storedVersion :: int
  storedLibraryPath :: string
  storedItems :: "(string \<times> hashData) list"

definition stringify :: "CacheDocument \<Rightarrow> StoredDocument" where
  "stringify d =
     \<lparr>storedVersion = version d, storedLibraryPath = libraryPath d,
      storedItems = own (items d)\<rparr>"

definition parse :: "StoredDocument \<Rightarrow> CacheDocument" where
  "parse s =
     \<lparr>version = storedVersion s, libraryPath = storedLibraryPath s,
      items = \<lparr>own = storedItems s, proto = None\<rparr>\<rparr>"

text \<open>
  What \<^verbatim>\<open>_load\<close> finds at \<^verbatim>\<open>Cache._cacheFile\<close>: no file; a file whose reading or
  parsing throws (also one whose \<^verbatim>\<open>items\<close> cannot be enumerated); or a document.
\<close>

datatype fileContent = NoFile | Unreadable | Parsed StoredDocument

text \<open>
  The module state: \<^verbatim>\<open>_data\<close>, \<^verbatim>\<open>_saveTimer\<close> (is a debounce timer pending?) and
  \<^verbatim>\<open>_dirty\<close>, together with the content of the cache file and whether the storage
  accepts a write (\<^verbatim>\<open>fs.writeFileSync\<close> throws when it does not).
\<close>

record Cache =
  data :: "CacheDocument option"
  saveTimer :: bool
  dirty :: bool
  cacheFile :: fileContent
  writable :: bool

definition CACHE_VERSION :: int where "CACHE_VERSION = 3"

definition emptyDocument :: "string \<Rightarrow> CacheDocument" where
  "emptyDocument libPath =
     \<lparr>version = CACHE_VERSION, libraryPath = libPath, items = \<lparr>own = [], proto = None\<rparr>\<rparr>"

text \<open>\<^verbatim>\<open>_load(libraryPath)\<close>\<close>

definition load :: "string \<Rightarrow> Cache \<Rightarrow> Cache" where
  "load libPath c =
     (case cacheFile c of
        Parsed stored \<Rightarrow>
          (let parsed = parse stored
           in if version parsed = CACHE_VERSION \<and> libraryPath parsed = libPath
              then c\<lparr>data := Some parsed\<rparr>
              else c\<lparr>data := Some (emptyDocument libPath)\<rparr>)
      | _ \<Rightarrow> c\<lparr>data := Some (emptyDocument libPath)\<rparr>)"

text \<open>\<^verbatim>\<open>_doSave()\<close>: a failed write is logged and leaves the document dirty.\<close>

definition doSave :: "Cache \<Rightarrow> Cache" where
  "doSave c =
     (let c1 = (if saveTimer c then c\<lparr>saveTimer := False\<rparr> else c)
      in if \<not> dirty c1 \<or> data c1 = None then c1
         else if writable c1
              then c1\<lparr>cacheFile := Parsed (stringify (the (data c1))), dirty := False\<rparr>
         else c1)"

text \<open>\<^verbatim>\<open>save(immediate)\<close>\<close>

definition save :: "bool \<Rightarrow> Cache \<Rightarrow> Cache" where
  "save immediate c =
     (let c1 = c\<lparr>dirty := True\<rparr>
      in if immediate then doSave c1
         else if \<not> saveTimer c1 then c1\<lparr>saveTimer := True\<rparr>
         else c1)"

text \<open>
  \<^verbatim>\<open>getHash(itemId)\<close>: \<^verbatim>\<open>Cache._data.items[itemId] || null\<close>, with \<open>None\<close> for
  \<^verbatim>\<open>null\<close>.
\<close>

definition getHash :: "string \<Rightarrow> Cache \<Rightarrow> jsValue option" where
  "getHash itemId c =
     (case data c of
        None \<Rightarrow> None
      | Some d \<Rightarrow>
          (case getItem (items d) itemId of
             None \<Rightarrow> None
           | Some v \<Rightarrow> if truthy v then Some v else None))"

text \<open>
  \<^verbatim>\<open>hasValidHash(itemId)\<close>: only a record has the properties \<^verbatim>\<open>pHash\<close> and
  \<^verbatim>\<open>colorHistogram\<close>; on every other value \<^verbatim>\<open>cached.pHash\<close> is undefined.
\<close>

definition hasValidHash :: "string \<Rightarrow> Cache \<Rightarrow> bool" where
  "hasValidHash itemId c =
     (case data c of
        None \<Rightarrow> False
      | Some d \<Rightarrow>
          (case getItem (items d) itemId of
             Some (Rec cached) \<Rightarrow>
               \<not> falsyStr (pHash cached) \<and>
               (case colorHistogram cached of None \<Rightarrow> False | Some h \<Rightarrow> length h > 0)
           | _ \<Rightarrow> False))"

definition setHash :: "string \<Rightarrow> hashData \<Rightarrow> Cache \<Rightarrow> Cache" where
  "setHash itemId hashData c =
     (case data c of
        None \<Rightarrow> c
      | Some d \<Rightarrow> save False (c\<lparr>data := Some (d\<lparr>items := setItem itemId hashData (items d)\<rparr>)\<rparr>))"

text \<open>
  \<^verbatim>\<open>removeOrphans(validIds)\<close>: the loop over \<^verbatim>\<open>Object.keys\<close> of \<^verbatim>\<open>items\<close> (its own
  keys), deleting each key that is not in the set of valid ids and counting the deletions.
\<close>

fun orphanLoop ::
  "string list \<Rightarrow> string list \<Rightarrow> (string \<times> hashData) list \<times> nat \<Rightarrow>
   (string \<times> hashData) list \<times> nat" where
  "orphanLoop validIds [] (its, removed) = (its, removed)"
| "orphanLoop validIds (i # cacheIds) (its, removed) =
     (if i \<notin> set validIds
      then orphanLoop validIds cacheIds (AList.delete i its, removed + 1)
      else orphanLoop validIds cacheIds (its, removed))"

definition removeOrphans :: "string list \<Rightarrow> Cache \<Rightarrow> Cache" where
  "removeOrphans validIds c =
     (case data c of
        None \<Rightarrow> c
      | Some d \<Rightarrow>
          (case orphanLoop validIds (map fst (own (items d))) (own (items d), 0) of
             (its, removed) \<Rightarrow>
               let c1 = c\<lparr>data := Some (d\<lparr>items := (items d)\<lparr>own := its\<rparr>\<rparr>)\<rparr>
               in if removed > 0 then save False c1 else c1))"

definition flush :: "Cache \<Rightarrow> Cache" where
  "flush c = doSave c"

section \<open>indexer.js\<close>

text \<open>
  A library item as the indexer reads it. Console output and the progress callback do
  not touch the cache and are left out.
\<close>

record LibraryItem =
  itemId :: string
  itemExt :: "string option"
  thumbnailPath :: "string option"
  filePath :: "string option"

definition IMAGE_EXTENSIONS :: "string list" where
  "IMAGE_EXTENSIONS =
     [''jpg'', ''jpeg'', ''png'', ''gif'', ''bmp'', ''webp'', ''svg'',
      ''tiff'', ''tif'', ''ico'', ''avif'']"

definition CHUNK_SIZE :: nat where "CHUNK_SIZE = 10"
definition EMBED_CHUNK_SIZE :: nat where "EMBED_CHUNK_SIZE = 1"

text \<open>\<^verbatim>\<open>toLowerCase\<close> on the letters \<open>A\<close> to \<open>Z\<close>; other characters stay.\<close>

definition lowerTable :: "(char \<times> char) list" where
  "lowerTable = zip ''ABCDEFGHIJKLMNOPQRSTUVWXYZ'' ''abcdefghijklmnopqrstuvwxyz''"

definition toLowerCase :: "string \<Rightarrow> string" where
  "toLowerCase s = map (\<lambda>ch. case map_of lowerTable ch of None \<Rightarrow> ch | Some l \<Rightarrow> l) s"

definition isImageType :: "string option \<Rightarrow> bool" where
  "isImageType e =
     (if falsyStr e then False else toLowerCase (the e) \<in> set IMAGE_EXTENSIONS)"

definition getHashPath :: "LibraryItem \<Rightarrow> string option" where
  "getHashPath item =
     (if \<not> falsyStr (thumbnailPath item) then thumbnailPath item
      else if \<not> falsyStr (filePath item) then filePath item
      else None)"

text \<open>
  The collaborators of a run: \<^verbatim>\<open>Hasher.computeHashes\<close> and
  \<^verbatim>\<open>Embedder.computeEmbedding\<close> on a path (\<open>None\<close> when the call throws),
  \<^verbatim>\<open>Embedder.isReady()\<close>, and the value of \<^verbatim>\<open>Indexer._shouldStop\<close> that the loop
  reads at index \<open>i\<close>; \<^verbatim>\<open>stop()\<close> may set the flag at any time.
\<close>

record Env =
  computeHashes :: "string \<Rightarrow> (string \<times> real list) option"
  computeEmbedding :: "string \<Rightarrow> real list option"
  embedderReady :: bool
  shouldStop :: "nat \<Rightarrow> bool"

text \<open>
  The body run for each item of a chunk in \<^verbatim>\<open>_indexPhash\<close>; an exception skips the
  item. The items of a chunk are hashed concurrently and each writes its own record; the
  writes are taken in the order of the chunk (the order in which they complete changes
  only the order of the keys).
\<close>

definition hashItem :: "Env \<Rightarrow> LibraryItem \<Rightarrow> Cache \<Rightarrow> Cache" where
  "hashItem env item c =
     (case getHashPath item of
        None \<Rightarrow> c
      | Some hashPath \<Rightarrow>
          (case computeHashes env hashPath of
             None \<Rightarrow> c
           | Some (p, h) \<Rightarrow>
               setHash (itemId item)
                 \<lparr>pHash = Some p, colorHistogram = Some h, embedding = None,
                  ext = itemExt item\<rparr> c))"

function phashLoop :: "Env \<Rightarrow> LibraryItem list \<Rightarrow> nat \<Rightarrow> Cache \<Rightarrow> Cache" where
  "phashLoop env toIndex i c =
     (if i < length toIndex then
        (if shouldStop env i then c
         else
           (let chunk = take CHUNK_SIZE (drop i toIndex)
            in phashLoop env toIndex (i + CHUNK_SIZE)
                 (foldl (\<lambda>c' item. hashItem env item c') c chunk)))
      else c)"
  by pat_completeness auto
termination
  by (relation "measure (\<lambda>(env, toIndex, i, c). length toIndex - i)")
    (auto simp: CHUNK_SIZE_def)

declare phashLoop.simps [simp del]

text \<open>\<^verbatim>\<open>_indexPhash(items, onProgress)\<close>\<close>

definition indexPhash :: "Env \<Rightarrow> LibraryItem list \<Rightarrow> Cache \<Rightarrow> Cache" where
  "indexPhash env libItems c =
     (let toIndex =
            filter (\<lambda>item. isImageType (itemExt item) \<and> \<not> hasValidHash (itemId item) c)
              libItems
      in if length toIndex = 0 then c
         else
           (let validIds = map itemId libItems;
                c1 = removeOrphans validIds c;
                c2 = phashLoop env toIndex 0 c1
            in flush c2))"

text \<open>
  The body of the loop of \<^verbatim>\<open>_indexClip\<close> for one item:
  \<^verbatim>\<open>existing = Cache.getHash(item.id) || {}\<close>, then the record
  \<^verbatim>\<open>{ ...existing, embedding }\<close> is written. The spread copies the own enumerable
  properties: those of a record; none of the four record properties when
  \<^verbatim>\<open>existing\<close> is a function, \<^verbatim>\<open>Object.prototype\<close>, a string or an array.
\<close>

definition emptyRecord :: hashData where
  "emptyRecord = \<lparr>pHash = None, colorHistogram = None, embedding = None, ext = None\<rparr>"

definition embedItem :: "Env \<Rightarrow> LibraryItem \<Rightarrow> Cache \<Rightarrow> Cache" where
  "embedItem env item c =
     (case getHashPath item of
        None \<Rightarrow> c
      | Some hashPath \<Rightarrow>
          (case computeEmbedding env hashPath of
             None \<Rightarrow> c
           | Some e \<Rightarrow>
               (let existing = (case getHash (itemId item) c of
                                  Some (Rec r) \<Rightarrow> r | _ \<Rightarrow> emptyRecord)
                in setHash (itemId item) (existing\<lparr>embedding := Some e\<rparr>) c)))"

function clipLoop :: "Env \<Rightarrow> LibraryItem list \<Rightarrow> nat \<Rightarrow> Cache \<Rightarrow> Cache" where
  "clipLoop env toEmbed i c =
     (if i < length toEmbed then
        (if shouldStop env i then c
         else clipLoop env toEmbed (i + EMBED_CHUNK_SIZE) (embedItem env (toEmbed ! i) c))
      else c)"
  by pat_completeness auto
termination
  by (relation "measure (\<lambda>(env, toEmbed, i, c). length toEmbed - i)")
    (auto simp: EMBED_CHUNK_SIZE_def)

declare clipLoop.simps [simp del]

text \<open>
  \<^verbatim>\<open>_indexClip(items, onProgress)\<close>. In the filter \<^verbatim>\<open>cached && !cached.embedding\<close>
  a value that is not a record has no \<^verbatim>\<open>embedding\<close> property.
\<close>

definition indexClip :: "Env \<Rightarrow> LibraryItem list \<Rightarrow> Cache \<Rightarrow> Cache" where
  "indexClip env libItems c =
     (if \<not> embedderReady env then c
      else
        (let toEmbed =
               filter (\<lambda>item. isImageType (itemExt item) \<and>
                         (case getHash (itemId item) c of
                            None \<Rightarrow> False
                          | Some (Rec cached) \<Rightarrow> embedding cached = None
                          | Some _ \<Rightarrow> True))
                 libItems
         in if length toEmbed = 0 then c
            else flush (clipLoop env toEmbed 0 c)))"

text \<open>What a write of the embedding phase keeps of a record \<open>r\<close>.\<close>

definition keepsFields :: "hashData \<Rightarrow> hashData \<Rightarrow> bool" where
  "keepsFields r r' =
     (pHash r' = pHash r \<and> colorHistogram r' = colorHistogram r \<and> ext r' = ext r \<and>
      (embedding r \<noteq> None \<longrightarrow> embedding r' = embedding r))"

text \<open>\<^verbatim>\<open>Object.keys\<close> of \<^verbatim>\<open>items\<close>, as a set.\<close>

definition ownKeys :: "Cache \<Rightarrow> string set" where
  "ownKeys c = (case data c of None \<Rightarrow> {} | Some d \<Rightarrow> fst ` set (own (items d)))"

section \<open>Examples\<close>

subsection \<open>Example records\<close>

definition qEx :: hashData where
  "qEx = \<lparr>pHash = Some ''f0'', colorHistogram = Some [1, 0], embedding = Some [1, 0],
          ext = None\<rparr>"

definition cEx :: hashData where
  "cEx = \<lparr>pHash = Some ''f1'', colorHistogram = Some [1, 0], embedding = None,
          ext = Some ''png''\<rparr>"

definition poolEx :: "(string \<times> hashData option) list" where
  "poolEx =
     [(''A'', Some \<lparr>pHash = Some ''f0'', colorHistogram = Some [1, 0], embedding = None,
                    ext = Some ''png''\<rparr>),
      (''B'', Some \<lparr>pHash = Some ''f1'', colorHistogram = Some [1, 0], embedding = None,
                    ext = Some ''png''\<rparr>),
      (''C'', Some \<lparr>pHash = Some ''f0'', colorHistogram = Some [1, 0], embedding = None,
                    ext = Some ''jpg''\<rparr>),
      (''D'', Some \<lparr>pHash = Some ''0f'', colorHistogram = Some [0, 1], embedding = None,
                    ext = Some ''jpg''\<rparr>),
      (''E'', None)]"

definition queryEx :: hashData where
  "queryEx = \<lparr>pHash = Some ''f0'', colorHistogram = Some [1, 0], embedding = None, ext = None\<rparr>"


subsection \<open>Example cache states and library items\<close>

definition recA :: hashData where
  "recA = \<lparr>pHash = Some ''f0'', colorHistogram = Some [1, 0], embedding = Some [1, 0],
           ext = Some ''png''\<rparr>"

definition recB :: hashData where
  "recB = \<lparr>pHash = Some ''0f'', colorHistogram = Some [0, 1], embedding = None,
           ext = Some ''jpg''\<rparr>"

definition storedEx :: StoredDocument where
  "storedEx =
     \<lparr>storedVersion = 3, storedLibraryPath = ''/lib/one'',
      storedItems = [(''A'', recA), (''B'', recB)]\<rparr>"

definition cacheEx :: Cache where
  "cacheEx =
     \<lparr>data = Some \<lparr>version = 3, libraryPath = ''/lib/one'',
                    items = \<lparr>own = [(''A'', recA), (''B'', recB)], proto = None\<rparr>\<rparr>,
      saveTimer = False, dirty = False,
      cacheFile = Parsed storedEx,
      writable = True\<rparr>"

definition itemA :: LibraryItem where
  "itemA = \<lparr>itemId = ''A'', itemExt = Some ''PNG'', thumbnailPath = None,
            filePath = Some ''/lib/one/a.png''\<rparr>"

definition envEx :: Env where
  "envEx =
     \<lparr>computeHashes = (\<lambda>path. Some (''ff'', [1, 0])),
      computeEmbedding = (\<lambda>path. Some [0, 1]),
      embedderReady = True,
      shouldStop = (\<lambda>i. False)\<rparr>"

definition recNoHash :: hashData where
  "recNoHash = \<lparr>pHash = None, colorHistogram = None, embedding = Some [1, 0],
                ext = Some ''png''\<rparr>"

definition cacheEx2 :: Cache where
  "cacheEx2 =
     \<lparr>data = Some \<lparr>version = 3, libraryPath = ''/lib/one'',
                    items = \<lparr>own = [(''A'', recNoHash), (''B'', recB)], proto = None\<rparr>\<rparr>,
      saveTimer = False, dirty = False, cacheFile = NoFile, writable = True\<rparr>"

definition itemB :: LibraryItem where
  "itemB = \<lparr>itemId = ''B'', itemExt = Some ''jpg'', thumbnailPath = Some ''/lib/one/b_thumb.png'',
            filePath = Some ''/lib/one/b.jpg''\<rparr>"

definition dataEx :: "8 word list" where
  "dataEx = [255, 0, 0, 255,  0, 0, 255, 200,  9, 9, 9, 127,  255, 10, 0, 128]"

section \<open>Properties of the similarity engine\<close>

lemma bitLoop_zero: "bitLoop 0 d = d"
  by (simp add: bitLoop.simps)

lemma parseInt16_bound: "toInt32 (parseInt16 c) < 16"
  by (simp add: toInt32_def parseInt16_def hexTable_def)

lemma xor_nat_bound:
  fixes a b :: nat
  assumes "a < 2 ^ n" "b < 2 ^ n"
  shows "a XOR b < 2 ^ n"
proof -
  have "int a XOR int b < 2 ^ n"
    using assms by (intro XOR_upper) auto
  then show ?thesis
    by (metis of_nat_xor_eq of_nat_less_iff of_nat_numeral of_nat_power)
qed

lemma bitLoop_bound: "x < 2 ^ n \<Longrightarrow> bitLoop x d \<le> d + n"
proof (induction n arbitrary: x d)
  case 0
  then show ?case by (simp add: bitLoop.simps)
next
  case (Suc n)
  show ?case
  proof (cases "x = 0")
    case True
    then show ?thesis by (simp add: bitLoop.simps)
  next
    case False
    have "drop_bit 1 x < 2 ^ n"
      using Suc.prems by (simp add: drop_bit_eq_div less_mult_imp_div_less)
    from Suc.IH [OF this, of "d + (x AND 1)"]
    have "bitLoop (drop_bit 1 x) (d + (x AND 1)) \<le> d + (x AND 1) + n" .
    moreover have "x AND 1 \<le> 1"
      by (simp add: and_one_eq)
    ultimately show ?thesis
      using False by (subst bitLoop.simps) simp
  qed
qed

lemma hammingLoop_bound: "hammingLoop h1 h2 d \<le> d + 4 * min (length h1) (length h2)"
proof (induction h1 h2 d rule: hammingLoop.induct)
  case (1 c1 h1 c2 h2 d)
  have "toInt32 (parseInt16 c1) XOR toInt32 (parseInt16 c2) < 2 ^ 4"
    by (rule xor_nat_bound) (use parseInt16_bound in simp_all)
  then have "bitLoop (toInt32 (parseInt16 c1) XOR toInt32 (parseInt16 c2)) d \<le> d + 4"
    by (rule bitLoop_bound)
  with 1 show ?case by simp
qed simp_all

lemma hammingLoop_self: "hammingLoop h h d = d"
  by (induction h arbitrary: d) (simp_all add: bitLoop_zero)

lemma hammingLoop_sym: "hammingLoop h1 h2 d = hammingLoop h2 h1 d"
proof (induction h1 arbitrary: h2 d)
  case Nil
  then show ?case by (cases h2) simp_all
next
  case (Cons c1 h1)
  then show ?case by (cases h2) (simp_all add: xor.commute)
qed

lemma hammingDistance_sym: "hammingDistance a b = hammingDistance b a"
  unfolding hammingDistance_def using hammingLoop_sym [of "the a" "the b" 0] by auto

lemma hammingDistance_le:
  assumes "case h1 of None \<Rightarrow> True | Some s \<Rightarrow> length s \<le> 64"
  shows "hammingDistance h1 h2 \<le> 256"
proof (cases "falsyStr h1 \<or> falsyStr h2 \<or> length (the h1) \<noteq> length (the h2)")
  case True
  then show ?thesis by (simp add: hammingDistance_def MAX_HAMMING_BITS_def)
next
  case False
  then obtain s where s: "h1 = Some s" by (cases h1) (auto simp: falsyStr_def)
  with assms have "length s \<le> 64" by simp
  moreover have "hammingLoop s (the h2) 0 \<le> 0 + 4 * min (length s) (length (the h2))"
    by (rule hammingLoop_bound)
  ultimately show ?thesis using False s by (simp add: hammingDistance_def)
qed


lemma hammingDistance_self: "h \<noteq> [] \<Longrightarrow> hammingDistance (Some h) (Some h) = 0"
  by (simp add: hammingDistance_def falsyStr_def hammingLoop_self)

text \<open>
  Claim C8. The Hamming distance of a well-formed hash (64 hexadecimal characters; any
  non-empty string will do) to itself is 0; the distance is symmetric for all inputs,
  missing ones included; and it is the maximum, 256, whenever an argument is missing or
  the two strings differ in length.
\<close>

theorem hammingDistance_props:
  "(h \<noteq> [] \<longrightarrow> hammingDistance (Some h) (Some h) = 0) \<and>
   hammingDistance a b = hammingDistance b a \<and>
   (a = None \<or> b = None \<or> (\<exists>s t. a = Some s \<and> b = Some t \<and> length s \<noteq> length t)
      \<longrightarrow> hammingDistance a b = 256)"
proof (intro conjI impI)
  show "hammingDistance a b = hammingDistance b a"
    by (rule hammingDistance_sym)
next
  assume "h \<noteq> []"
  then show "hammingDistance (Some h) (Some h) = 0"
    by (rule hammingDistance_self)
next
  assume "a = None \<or> b = None \<or> (\<exists>s t. a = Some s \<and> b = Some t \<and> length s \<noteq> length t)"
  then show "hammingDistance a b = 256"
    by (auto simp: hammingDistance_def falsyStr_def MAX_HAMMING_BITS_def)
qed

theorem hammingDistance_props_witness:
  "hammingDistance (Some ''a3f0c2d4e5b697881122334455667788a3f0c2d4e5b697881122334455667788'')
     (Some ''a3f0c2d4e5b697881122334455667788a3f0c2d4e5b697881122334455667788'') = 0 \<and>
   hammingDistance None (Some ''ff'') = 256 \<and>
   hammingDistance (Some ''ff'') (Some ''fff'') = 256"
  using hammingDistance_props
          [of "''a3f0c2d4e5b697881122334455667788a3f0c2d4e5b697881122334455667788''"
              None "Some ''ff''"]
        hammingDistance_props [of "''x''" "Some ''ff''" "Some ''fff''"]
  by simp

text \<open>
  Claim C7. \<^verbatim>\<open>pHashScore\<close> is \<open>1 - hammingDistance / 256\<close>; it lies in \<open>[0, 1]\<close> for
  hash strings, which encode 256 bits in at most 64 characters (a missing hash included);
  and a pair with a greater Hamming distance has a strictly smaller score.
\<close>

theorem pHashScore_range_decreasing:
  "pHashScore h1 h2 = 1 - real (hammingDistance h1 h2) / 256 \<and>
   (within256 h1 \<longrightarrow> 0 \<le> pHashScore h1 h2 \<and> pHashScore h1 h2 \<le> 1) \<and>
   (hammingDistance h1 h2 < hammingDistance h3 h4 \<longrightarrow> pHashScore h3 h4 < pHashScore h1 h2)"
proof (intro conjI impI)
  show "pHashScore h1 h2 = 1 - real (hammingDistance h1 h2) / 256"
    by (simp add: pHashScore_def MAX_HAMMING_BITS_def)
next
  assume "within256 h1"
  then have "hammingDistance h1 h2 \<le> 256"
    unfolding within256_def by (rule hammingDistance_le)
  then show "0 \<le> pHashScore h1 h2"
    by (simp add: pHashScore_def MAX_HAMMING_BITS_def)
next
  show "pHashScore h1 h2 \<le> 1"
    by (simp add: pHashScore_def MAX_HAMMING_BITS_def)
next
  assume "hammingDistance h1 h2 < hammingDistance h3 h4"
  then show "pHashScore h3 h4 < pHashScore h1 h2"
    by (simp add: pHashScore_def MAX_HAMMING_BITS_def divide_strict_right_mono)
qed

theorem pHashScore_range_decreasing_witness:
  "within256 (Some ''0000000000000000000000000000000000000000000000000000000000000000'') \<and>
   hammingDistance (Some ''0000000000000000000000000000000000000000000000000000000000000000'') (Some ''0000000000000000000000000000000000000000000000000000000000000000'')
     < hammingDistance (Some ''0000000000000000000000000000000000000000000000000000000000000000'') (Some ''f000000000000000000000000000000000000000000000000000000000000000'') \<and>
   0 \<le> pHashScore (Some ''0000000000000000000000000000000000000000000000000000000000000000'') (Some ''0000000000000000000000000000000000000000000000000000000000000000'') \<and>
   pHashScore (Some ''0000000000000000000000000000000000000000000000000000000000000000'') (Some ''0000000000000000000000000000000000000000000000000000000000000000'') \<le> 1 \<and>
   pHashScore (Some ''0000000000000000000000000000000000000000000000000000000000000000'') (Some ''f000000000000000000000000000000000000000000000000000000000000000'')
     < pHashScore (Some ''0000000000000000000000000000000000000000000000000000000000000000'') (Some ''0000000000000000000000000000000000000000000000000000000000000000'')"
proof -
  have w: "within256 (Some ''0000000000000000000000000000000000000000000000000000000000000000'')"
    by (simp add: within256_def)
  have d0: "hammingDistance (Some ''0000000000000000000000000000000000000000000000000000000000000000'') (Some ''0000000000000000000000000000000000000000000000000000000000000000'') = 0"
    by (simp add: hammingDistance_def falsyStr_def hammingLoop_self)
  have d4: "hammingDistance (Some ''0000000000000000000000000000000000000000000000000000000000000000'') (Some ''f000000000000000000000000000000000000000000000000000000000000000'') = 4"
    by (simp add: hammingDistance_def falsyStr_def bitLoop.simps toInt32_def parseInt16_def
        hexTable_def)
  show ?thesis
    using w d0 d4
      pHashScore_range_decreasing
        [of "Some ''0000000000000000000000000000000000000000000000000000000000000000''" "Some ''0000000000000000000000000000000000000000000000000000000000000000''"
            "Some ''0000000000000000000000000000000000000000000000000000000000000000''" "Some ''f000000000000000000000000000000000000000000000000000000000000000''"]
    by simp
qed

lemma histLoop_sums:
  "length h1 = length h2 \<Longrightarrow>
   histLoop h1 h2 (d, m1, m2) =
     (d + sum_list (map2 (*) h1 h2),
      m1 + sum_list (map (\<lambda>x. x * x) h1),
      m2 + sum_list (map (\<lambda>x. x * x) h2))"
proof (induction h1 arbitrary: h2 d m1 m2)
  case Nil
  then show ?case by simp
next
  case (Cons x h1)
  then obtain y t where "h2 = y # t" by (cases h2) auto
  with Cons show ?case by (simp add: algebra_simps)
qed

lemma map2_mult_commute: "map2 (*) (h1 :: real list) h2 = map2 (*) h2 h1"
proof (induction h1 arbitrary: h2)
  case Nil
  then show ?case by simp
next
  case (Cons x h1)
  then show ?case by (cases h2) (simp_all add: mult.commute)
qed

lemma histogramSimilarity_eq:
  "length h1 = length h2 \<Longrightarrow>
   histogramSimilarity (Some h1) (Some h2) =
     (if magnitude h1 = 0 \<or> magnitude h2 = 0 then 0
      else sum_list (map2 (*) h1 h2) / (magnitude h1 * magnitude h2))"
  by (simp add: histogramSimilarity_def histLoop_sums magnitude_def Let_def)

lemma histogramSimilarity_sym: "histogramSimilarity a b = histogramSimilarity b a"
proof (cases a)
  case None
  then show ?thesis by (cases b) (simp_all add: histogramSimilarity_def)
next
  case (Some h1)
  note a = this
  show ?thesis
  proof (cases b)
    case None
    with a show ?thesis by (simp add: histogramSimilarity_def)
  next
    case (Some h2)
    show ?thesis
    proof (cases "length h1 = length h2")
      case True
      then show ?thesis
        using a Some histogramSimilarity_eq [of h1 h2] histogramSimilarity_eq [of h2 h1]
          map2_mult_commute [of h1 h2]
        by (auto simp: mult.commute)
    next
      case False
      with a Some show ?thesis by (simp add: histogramSimilarity_def)
    qed
  qed
qed

lemma magnitude_all_zero: "\<forall>x\<in>set h. x = 0 \<Longrightarrow> magnitude h = 0"
proof -
  assume z: "\<forall>x\<in>set h. x = 0"
  have "sum_list (map (\<lambda>x. x * x) h) = 0"
    using z by (induction h) simp_all
  then show ?thesis by (simp add: magnitude_def)
qed

lemma histogramSimilarity_zero_mag:
  assumes "magnitude h1 = 0 \<or> magnitude h2 = 0"
  shows "histogramSimilarity (Some h1) (Some h2) = 0"
proof (cases "length h1 = length h2")
  case True
  with assms show ?thesis by (auto simp: histogramSimilarity_eq)
next
  case False
  then show ?thesis by (simp add: histogramSimilarity_def)
qed

text \<open>
  Claim C9. \<^verbatim>\<open>histogramSimilarity\<close> is symmetric, and it is 0 when a vector is missing,
  when the lengths differ, and when a vector has magnitude zero, in particular when all
  its entries are zero.
\<close>

theorem histogramSimilarity_props:
  "histogramSimilarity a b = histogramSimilarity b a \<and>
   (a = None \<or> b = None \<longrightarrow> histogramSimilarity a b = 0) \<and>
   (length h1 \<noteq> length h2 \<longrightarrow> histogramSimilarity (Some h1) (Some h2) = 0) \<and>
   (magnitude h1 = 0 \<or> magnitude h2 = 0 \<longrightarrow> histogramSimilarity (Some h1) (Some h2) = 0) \<and>
   ((\<forall>x\<in>set h1. x = 0) \<or> (\<forall>x\<in>set h2. x = 0) \<longrightarrow>
      histogramSimilarity (Some h1) (Some h2) = 0)"
proof (intro conjI impI)
  show "histogramSimilarity a b = histogramSimilarity b a"
    by (rule histogramSimilarity_sym)
next
  assume "a = None \<or> b = None"
  then show "histogramSimilarity a b = 0"
    by (auto simp: histogramSimilarity_def split: option.splits)
next
  assume "length h1 \<noteq> length h2"
  then show "histogramSimilarity (Some h1) (Some h2) = 0"
    by (simp add: histogramSimilarity_def)
next
  assume "magnitude h1 = 0 \<or> magnitude h2 = 0"
  then show "histogramSimilarity (Some h1) (Some h2) = 0"
    by (rule histogramSimilarity_zero_mag)
next
  assume "(\<forall>x\<in>set h1. x = 0) \<or> (\<forall>x\<in>set h2. x = 0)"
  then have "magnitude h1 = 0 \<or> magnitude h2 = 0"
    using magnitude_all_zero by blast
  then show "histogramSimilarity (Some h1) (Some h2) = 0"
    by (rule histogramSimilarity_zero_mag)
qed

theorem histogramSimilarity_props_witness:
  "histogramSimilarity None (Some [1, 0]) = 0 \<and>
   histogramSimilarity (Some [1, 0]) (Some [1, 0, 0]) = 0 \<and>
   magnitude [0, 0] = 0 \<and>
   histogramSimilarity (Some [0, 0]) (Some [1, 0]) = 0 \<and>
   histogramSimilarity (Some [1, 0]) (Some [0, 0]) = 0"
proof -
  have m: "magnitude [0, 0] = 0" by (simp add: magnitude_def)
  show ?thesis
    using m histogramSimilarity_props [of None "Some [1, 0]" "[1, 0]" "[1, 0, 0]"]
      histogramSimilarity_props [of None None "[0, 0]" "[1, 0]"]
      histogramSimilarity_props [of None None "[1, 0]" "[0, 0]"]
    by simp
qed

lemma clipSimilarity_range: "0 \<le> clipSimilarity a b \<and> clipSimilarity a b \<le> 1"
  by (auto simp: clipSimilarity_def split: option.splits)

lemma hybrid_pScore:
  "(if \<not> falsyStr p \<and> \<not> falsyStr p' then pHashScore p p' else 0) = pHashScore p p'"
  by (auto simp: pHashScore_def hammingDistance_def MAX_HAMMING_BITS_def)

lemma hybrid_cScore:
  "(if h \<noteq> None \<and> h' \<noteq> None then histogramSimilarity h h' else 0) = histogramSimilarity h h'"
  by (auto simp: histogramSimilarity_def split: option.splits)

lemma mode_distinct:
  "MODE_HYBRID \<noteq> MODE_CLIP" "MODE_HYBRID \<noteq> MODE_PHASH" "MODE_PHASH \<noteq> MODE_CLIP"
  by (simp_all add: MODE_HYBRID_def MODE_CLIP_def MODE_PHASH_def)

lemma combinedScore_phash:
  "combinedScore q c MODE_PHASH =
     6 / 10 * pHashScore (pHash q) (pHash c) +
     4 / 10 * histogramSimilarity (colorHistogram q) (colorHistogram c)"
  by (simp add: combinedScore_def mode_distinct Let_def)

lemma combinedScore_hybrid_fallback:
  assumes "embedding q = None \<or> embedding c = None"
  shows "combinedScore q c MODE_HYBRID =
     6 / 10 * pHashScore (pHash q) (pHash c) +
     4 / 10 * histogramSimilarity (colorHistogram q) (colorHistogram c)"
proof -
  have "combinedScore q c MODE_HYBRID =
      6 / 10 * (if \<not> falsyStr (pHash q) \<and> \<not> falsyStr (pHash c)
                then pHashScore (pHash q) (pHash c) else 0) +
      4 / 10 * (if colorHistogram q \<noteq> None \<and> colorHistogram c \<noteq> None
                then histogramSimilarity (colorHistogram q) (colorHistogram c) else 0)"
    using assms unfolding combinedScore_def Let_def by (auto simp: mode_distinct)
  then show ?thesis by (simp only: hybrid_pScore hybrid_cScore)
qed

lemma combinedScore_hybrid_full:
  assumes "embedding q \<noteq> None" "embedding c \<noteq> None"
  shows "combinedScore q c MODE_HYBRID =
     25 / 100 * pHashScore (pHash q) (pHash c) +
     15 / 100 * histogramSimilarity (colorHistogram q) (colorHistogram c) +
     60 / 100 * clipSimilarity (embedding q) (embedding c)"
proof -
  have "combinedScore q c MODE_HYBRID =
      PHASH_WEIGHT * (if \<not> falsyStr (pHash q) \<and> \<not> falsyStr (pHash c)
                then pHashScore (pHash q) (pHash c) else 0) +
      COLOR_WEIGHT * (if colorHistogram q \<noteq> None \<and> colorHistogram c \<noteq> None
                then histogramSimilarity (colorHistogram q) (colorHistogram c) else 0) +
      CLIP_WEIGHT * clipSimilarity (embedding q) (embedding c)"
  proof -
    from assms obtain e1 e2 where "embedding q = Some e1" "embedding c = Some e2"
      by auto
    then show ?thesis
      unfolding combinedScore_def Let_def by (simp add: mode_distinct)
  qed
  then show ?thesis
    by (simp only: hybrid_pScore hybrid_cScore PHASH_WEIGHT_def COLOR_WEIGHT_def CLIP_WEIGHT_def)
qed

text \<open>
  Claim C2. In the hybrid mode, when the query or the candidate has no embedding the
  combined score is the pixel-mode formula \<open>0.6 * pHashScore + 0.4 * histogramScore\<close> on
  the same hashes and histograms, which is the score of the pixel mode; when both have an
  embedding it is \<open>0.25 * pHashScore + 0.15 * histogramScore + 0.60 * embeddingScore\<close>.
\<close>

theorem combinedScore_hybrid:
  "(embedding q = None \<or> embedding c = None \<longrightarrow>
      combinedScore q c MODE_HYBRID =
        6 / 10 * pHashScore (pHash q) (pHash c) +
        4 / 10 * histogramSimilarity (colorHistogram q) (colorHistogram c) \<and>
      combinedScore q c MODE_HYBRID = combinedScore q c MODE_PHASH) \<and>
   (embedding q \<noteq> None \<and> embedding c \<noteq> None \<longrightarrow>
      combinedScore q c MODE_HYBRID =
        25 / 100 * pHashScore (pHash q) (pHash c) +
        15 / 100 * histogramSimilarity (colorHistogram q) (colorHistogram c) +
        60 / 100 * clipSimilarity (embedding q) (embedding c))"
  using combinedScore_hybrid_fallback [of q c] combinedScore_hybrid_full [of q c]
    combinedScore_phash [of q c]
  by (simp only: simp_thms) blast

theorem combinedScore_hybrid_witness:
  "(embedding qEx = None \<or> embedding cEx = None) \<and>
   combinedScore qEx cEx MODE_HYBRID = 6 / 10 * (255 / 256) + 4 / 10 * 1 \<and>
   combinedScore qEx cEx MODE_HYBRID = combinedScore qEx cEx MODE_PHASH \<and>
   combinedScore qEx cEx MODE_HYBRID \<noteq> 0 \<and>
   embedding qEx \<noteq> None \<and> embedding (cEx\<lparr>embedding := Some [0, 1]\<rparr>) \<noteq> None \<and>
   combinedScore qEx (cEx\<lparr>embedding := Some [0, 1]\<rparr>) MODE_HYBRID =
     25 / 100 * (255 / 256) + 15 / 100 * 1 + 60 / 100 * (1 / 2)"
proof -
  have p: "pHashScore (Some ''f0'') (Some ''f1'') = 255 / 256"
    by (simp add: pHashScore_def MAX_HAMMING_BITS_def hammingDistance_def falsyStr_def
        bitLoop.simps toInt32_def parseInt16_def hexTable_def)
  have h: "histogramSimilarity (Some [1, 0]) (Some [1, 0]) = 1"
    by (simp add: histogramSimilarity_def)
  have e: "clipSimilarity (Some [1, 0]) (Some [0, 1]) = 1 / 2"
    by (simp add: clipSimilarity_def)
  show ?thesis
    using p h e combinedScore_hybrid [of qEx cEx]
      combinedScore_hybrid [of qEx "cEx\<lparr>embedding := Some [0, 1]\<rparr>"]
    by (simp add: qEx_def cEx_def)
qed

text \<open>
  Claim C10. Embeddings of different lengths, and a missing embedding, give the embedding
  score 0, the least value the score takes; no error is raised. The semantic mode then
  scores the pair 0, and the hybrid mode with two embeddings of different lengths adds
  nothing for the embedding.
\<close>

theorem clipSimilarity_mismatch:
  "(a = None \<or> b = None \<longrightarrow> clipSimilarity a b = 0) \<and>
   (length e1 \<noteq> length e2 \<longrightarrow> clipSimilarity (Some e1) (Some e2) = 0) \<and>
   0 \<le> clipSimilarity a b \<and>
   (embedding q = None \<or> embedding c = None \<or>
    length (the (embedding q)) \<noteq> length (the (embedding c)) \<longrightarrow>
      combinedScore q c MODE_CLIP = 0) \<and>
   (embedding q \<noteq> None \<and> embedding c \<noteq> None \<and>
    length (the (embedding q)) \<noteq> length (the (embedding c)) \<longrightarrow>
      combinedScore q c MODE_HYBRID =
        25 / 100 * pHashScore (pHash q) (pHash c) +
        15 / 100 * histogramSimilarity (colorHistogram q) (colorHistogram c))"
proof (intro conjI impI)
  assume "a = None \<or> b = None"
  then show "clipSimilarity a b = 0"
    by (auto simp: clipSimilarity_def split: option.splits)
next
  assume "length e1 \<noteq> length e2"
  then show "clipSimilarity (Some e1) (Some e2) = 0"
    by (simp add: clipSimilarity_def)
next
  show "0 \<le> clipSimilarity a b"
    using clipSimilarity_range by blast
next
  assume "embedding q = None \<or> embedding c = None \<or>
    length (the (embedding q)) \<noteq> length (the (embedding c))"
  then show "combinedScore q c MODE_CLIP = 0"
    by (auto simp: combinedScore_def clipSimilarity_def)
next
  assume a: "embedding q \<noteq> None \<and> embedding c \<noteq> None \<and>
    length (the (embedding q)) \<noteq> length (the (embedding c))"
  then have "clipSimilarity (embedding q) (embedding c) = 0"
    by (auto simp: clipSimilarity_def)
  with a show "combinedScore q c MODE_HYBRID =
        25 / 100 * pHashScore (pHash q) (pHash c) +
        15 / 100 * histogramSimilarity (colorHistogram q) (colorHistogram c)"
    using combinedScore_hybrid_full [of q c] by simp
qed

theorem clipSimilarity_mismatch_witness:
  "clipSimilarity None (Some (replicate 512 0)) = 0 \<and>
   clipSimilarity (Some (replicate 512 0)) (Some (replicate 1000 0)) = 0 \<and>
   combinedScore (qEx\<lparr>embedding := Some (replicate 512 0)\<rparr>)
     (cEx\<lparr>embedding := Some (replicate 1000 0)\<rparr>) MODE_CLIP = 0 \<and>
   combinedScore (qEx\<lparr>embedding := Some (replicate 512 0)\<rparr>)
     (cEx\<lparr>embedding := Some (replicate 1000 0)\<rparr>) MODE_HYBRID =
     25 / 100 * pHashScore (Some ''f0'') (Some ''f1'') +
     15 / 100 * histogramSimilarity (Some [1, 0]) (Some [1, 0])"
  using clipSimilarity_mismatch
      [of None "Some (replicate 512 0)" "replicate 512 0" "replicate 1000 0"
          "qEx\<lparr>embedding := Some (replicate 512 0)\<rparr>"
          "cEx\<lparr>embedding := Some (replicate 1000 0)\<rparr>"]
  by (simp add: qEx_def cEx_def)

lemma scanLoop_step:
  "scanLoop queryData thresholdNorm excludeId searchMode ((i, cand) # rest) results =
     scanLoop queryData thresholdNorm excludeId searchMode rest results \<or>
   (Some i \<noteq> excludeId \<and>
    (\<exists>s. thresholdNorm \<le> s \<and>
       scanLoop queryData thresholdNorm excludeId searchMode ((i, cand) # rest) results =
         scanLoop queryData thresholdNorm excludeId searchMode rest
           (results @ [\<lparr>rid = i, score = s\<rparr>])))"
proof (cases cand)
  case None
  then show ?thesis by simp
next
  case (Some candidate)
  show ?thesis
  proof (cases "Some i \<noteq> excludeId \<and>
      \<not> (searchMode = MODE_CLIP \<and> embedding candidate = None) \<and>
      \<not> (searchMode = MODE_PHASH \<and> falsyStr (pHash candidate)) \<and>
      thresholdNorm \<le> combinedScore queryData candidate searchMode")
    case True
    then have "scanLoop queryData thresholdNorm excludeId searchMode ((i, cand) # rest) results =
        scanLoop queryData thresholdNorm excludeId searchMode rest
          (results @ [\<lparr>rid = i, score = combinedScore queryData candidate searchMode\<rparr>])"
      using Some by (auto simp: Let_def)
    with True show ?thesis by blast
  next
    case False
    then have "scanLoop queryData thresholdNorm excludeId searchMode ((i, cand) # rest) results =
        scanLoop queryData thresholdNorm excludeId searchMode rest results"
      using Some by (auto simp: Let_def)
    then show ?thesis by blast
  qed
qed

lemma scanLoop_kept:
  assumes "\<forall>r\<in>set results. Some (rid r) \<noteq> excludeId \<and> thresholdNorm \<le> score r"
  shows "\<forall>r\<in>set (scanLoop queryData thresholdNorm excludeId searchMode cacheItems results).
           Some (rid r) \<noteq> excludeId \<and> thresholdNorm \<le> score r"
  using assms
proof (induction cacheItems arbitrary: results)
  case Nil
  then show ?case by simp
next
  case (Cons p rest)
  obtain i cand where p: "p = (i, cand)" by (cases p)
  from scanLoop_step [of queryData thresholdNorm excludeId searchMode i cand rest results]
  consider
    (skip) "scanLoop queryData thresholdNorm excludeId searchMode (p # rest) results =
       scanLoop queryData thresholdNorm excludeId searchMode rest results"
  | (push) s where "Some i \<noteq> excludeId" "thresholdNorm \<le> s"
      "scanLoop queryData thresholdNorm excludeId searchMode (p # rest) results =
         scanLoop queryData thresholdNorm excludeId searchMode rest
           (results @ [\<lparr>rid = i, score = s\<rparr>])"
    unfolding p by blast
  then show ?case
  proof cases
    case skip
    show ?thesis
      unfolding skip by (rule Cons.IH) (rule Cons.prems)
  next
    case push
    have "\<forall>r\<in>set (results @ [\<lparr>rid = i, score = s\<rparr>]).
            Some (rid r) \<noteq> excludeId \<and> thresholdNorm \<le> score r"
      using Cons.prems push(1,2) by simp
    then show ?thesis
      unfolding push(3) by (rule Cons.IH)
  qed
qed

lemma sortByScore_set: "set (sortByScore rs) = set rs"
  by (simp add: sortByScore_def)

lemma sortByScore_sorted: "sorted_wrt (\<lambda>a b. score b \<le> score a) (sortByScore rs)"
proof -
  have "sorted (map (\<lambda>r. - score r) (sortByScore rs))"
    unfolding sortByScore_def by (rule sorted_sort_key)
  then show ?thesis
    by (simp add: sorted_map)
qed

lemma slice0_take: "\<exists>n. slice0 e xs = take n xs"
  by (auto simp: slice0_def Let_def)

lemma slice0_length: "0 \<le> e \<Longrightarrow> int (length (slice0 e xs)) \<le> e"
  by (simp add: slice0_def Let_def)

text \<open>
  Claim C1. The list \<^verbatim>\<open>findSimilar\<close> returns has no entry with the excluded id, every
  entry's score is at least \<open>threshold / 100\<close>, the list is sorted by descending score,
  and it has at most \<open>maxResults\<close> entries (for a count \<open>maxResults\<close>, that is a
  non-negative one).
\<close>

theorem findSimilar_props:
  "(\<forall>r\<in>set (findSimilar queryData cacheItems threshold maxResults excludeId mode).
      Some (rid r) \<noteq> excludeId \<and> threshold / 100 \<le> score r) \<and>
   sorted_wrt (\<lambda>a b. score b \<le> score a)
     (findSimilar queryData cacheItems threshold maxResults excludeId mode) \<and>
   (0 \<le> maxResults \<longrightarrow>
      int (length (findSimilar queryData cacheItems threshold maxResults excludeId mode))
        \<le> maxResults)"
proof -
  define searchMode where "searchMode = (if falsyStr mode then MODE_PHASH else the mode)"
  define results where
    "results = scanLoop queryData (threshold / 100) excludeId searchMode cacheItems []"
  have fs: "findSimilar queryData cacheItems threshold maxResults excludeId mode =
      slice0 maxResults (sortByScore results)"
    by (simp add: findSimilar_def Let_def results_def searchMode_def)
  obtain n where n: "slice0 maxResults (sortByScore results) = take n (sortByScore results)"
    using slice0_take by blast
  have kept: "\<forall>r\<in>set results. Some (rid r) \<noteq> excludeId \<and> threshold / 100 \<le> score r"
    unfolding results_def by (rule scanLoop_kept) simp
  have "set (take n (sortByScore results)) \<subseteq> set results"
    using set_take_subset [of n "sortByScore results"] by (simp add: sortByScore_set)
  with kept have 1: "\<forall>r\<in>set (take n (sortByScore results)).
      Some (rid r) \<noteq> excludeId \<and> threshold / 100 \<le> score r"
    by blast
  have 2: "sorted_wrt (\<lambda>a b. score b \<le> score a) (take n (sortByScore results))"
    by (rule sorted_wrt_take) (rule sortByScore_sorted)
  have 3: "0 \<le> maxResults \<longrightarrow>
      int (length (slice0 maxResults (sortByScore results))) \<le> maxResults"
    using slice0_length by blast
  show ?thesis
    using 1 2 3 by (simp add: fs n)
qed

lemma pHashScore_examples:
  "pHashScore (Some ''f0'') (Some ''f0'') = 1"
  "pHashScore (Some ''f0'') (Some ''f1'') = 255 / 256"
  "pHashScore (Some ''f0'') (Some ''0f'') = 31 / 32"
  by (simp_all add: pHashScore_def MAX_HAMMING_BITS_def hammingDistance_def falsyStr_def
      bitLoop.simps toInt32_def parseInt16_def hexTable_def)

lemma histogramSimilarity_examples:
  "histogramSimilarity (Some [1, 0]) (Some [1, 0]) = 1"
  "histogramSimilarity (Some [1, 0]) (Some [0, 1]) = 0"
  by (simp_all add: histogramSimilarity_def)

lemma scanLoop_example:
  "scanLoop queryEx (7 / 10) (Some ''A'') MODE_PHASH poolEx [] =
     [\<lparr>rid = ''B'', score = 6 / 10 * (255 / 256) + 4 / 10\<rparr>, \<lparr>rid = ''C'', score = 1\<rparr>]"
  by (simp add: poolEx_def queryEx_def falsyStr_def Let_def combinedScore_def
      MODE_PHASH_def MODE_CLIP_def pHashScore_examples histogramSimilarity_examples)

lemma findSimilar_example:
  "findSimilar queryEx poolEx 70 1 (Some ''A'') None = [\<lparr>rid = ''C'', score = 1\<rparr>]"
  by (simp add: findSimilar_def falsyStr_def Let_def scanLoop_example sortByScore_def slice0_def)

theorem findSimilar_props_witness:
  "(0::int) \<le> 1 \<and>
   findSimilar queryEx poolEx 70 1 (Some ''A'') None = [\<lparr>rid = ''C'', score = 1\<rparr>] \<and>
   list_all (\<lambda>r. Some (rid r) \<noteq> Some ''A'' \<and> 70 / 100 \<le> score r)
     (findSimilar queryEx poolEx 70 1 (Some ''A'') None) \<and>
   sorted_wrt (\<lambda>a b. score b \<le> score a) (findSimilar queryEx poolEx 70 1 (Some ''A'') None) \<and>
   int (length (findSimilar queryEx poolEx 70 1 (Some ''A'') None)) \<le> 1"
  using findSimilar_props [of queryEx poolEx 70 1 "Some ''A''" None] findSimilar_example
  by (simp add: list_all_iff)

section \<open>Properties of the colour histogram\<close>

lemma binIndex_less: "binIndex r g b < 64"
proof -
  have "binOf r \<le> 3" "binOf g \<le> 3" "binOf b \<le> 3"
    by (simp_all add: binOf_def)
  then show ?thesis
    unfolding binIndex_def by linarith
qed

lemma sum_list_incF32:
  "i < length h \<Longrightarrow> h ! i < 16777216 \<Longrightarrow>
   sum_list (h[i := incF32 (h ! i)]) = sum_list h + 1"
proof (induction h arbitrary: i)
  case Nil
  then show ?case by simp
next
  case (Cons x h)
  then show ?case by (cases i) (simp_all add: incF32_def)
qed

lemma pixelLoop_length: "length (fst (pixelLoop pixels (h, n))) = length h"
  by (induction pixels "(h, n)" arbitrary: h n rule: pixelLoop.induct) simp_all

lemma pixelLoop_sum:
  "length pixels mod 4 = 0 \<Longrightarrow> length h = 64 \<Longrightarrow> sum_list h = n \<Longrightarrow>
   n + length pixels div 4 \<le> 16777216 \<Longrightarrow>
   sum_list (fst (pixelLoop pixels (h, n))) = snd (pixelLoop pixels (h, n))"
proof (induction pixels "(h, n)" arbitrary: h n rule: pixelLoop.induct)
  case (1 r g b alpha rest histogram pixelCount)
  have rest: "length rest mod 4 = 0" using "1.prems"(1) by simp
  have room: "pixelCount + 1 + length rest div 4 \<le> 16777216"
    using "1.prems"(4) by simp
  show ?case
  proof (cases "unat alpha < 128")
    case True
    have "pixelCount + length rest div 4 \<le> 16777216" using room by simp
    with 1(1) [OF True rest "1.prems"(2,3)] True show ?thesis by simp
  next
    case False
    let ?i = "binIndex r g b"
    let ?h = "histogram[?i := incF32 (histogram ! ?i)]"
    have i: "?i < length histogram" by (simp add: "1.prems"(2) binIndex_less)
    then have "histogram ! ?i \<le> sum_list histogram"
      by (rule elem_le_sum_list)
    then have small: "histogram ! ?i < 16777216"
      using "1.prems"(3) room by simp
    have "sum_list ?h = pixelCount + 1"
      using sum_list_incF32 [OF i small] "1.prems"(3) by simp
    moreover have "length ?h = 64" using "1.prems"(2) by simp
    ultimately show ?thesis
      using 1(2) [OF False rest _ _ room] False by simp
  qed
qed simp_all

lemma visible_cons:
  "(\<exists>i. 4 * i + 3 < length (r # g # b # a # rest) \<and> P ((r # g # b # a # rest) ! (4 * i + 3))) \<longleftrightarrow>
   P a \<or> (\<exists>i. 4 * i + 3 < length rest \<and> P (rest ! (4 * i + 3)))"
  (is "?L \<longleftrightarrow> ?R")
proof
  assume ?L
  then obtain i where i: "4 * i + 3 < length (r # g # b # a # rest)"
    "P ((r # g # b # a # rest) ! (4 * i + 3))" by blast
  show ?R
  proof (cases i)
    case 0
    with i show ?thesis by simp
  next
    case (Suc j)
    with i have "4 * j + 3 < length rest" "P (rest ! (4 * j + 3))"
      by (simp_all add: add.commute)
    then show ?thesis by blast
  qed
next
  assume ?R
  then show ?L
  proof
    assume "P a"
    then have "4 * 0 + 3 < length (r # g # b # a # rest) \<and> P ((r # g # b # a # rest) ! (4 * 0 + 3))"
      by simp
    then show ?L by blast
  next
    assume "\<exists>i. 4 * i + 3 < length rest \<and> P (rest ! (4 * i + 3))"
    then obtain j where "4 * j + 3 < length rest" "P (rest ! (4 * j + 3))" by blast
    then have "4 * Suc j + 3 < length (r # g # b # a # rest) \<and>
        P ((r # g # b # a # rest) ! (4 * Suc j + 3))"
      by (simp add: add.commute)
    then show ?L by blast
  qed
qed

lemma pixelLoop_count_mono: "n \<le> snd (pixelLoop pixels (h, n))"
proof (induction pixels "(h, n)" arbitrary: h n rule: pixelLoop.induct)
  case (1 r g b alpha rest histogram pixelCount)
  show ?case
  proof (cases "unat alpha < 128")
    case True
    with 1(1) [OF True] show ?thesis by simp
  next
    case False
    with 1(2) [OF False] show ?thesis by simp
  qed
qed simp_all

lemma pixelLoop_visible:
  "length pixels mod 4 = 0 \<Longrightarrow>
   \<exists>i. 4 * i + 3 < length pixels \<and> 128 \<le> unat (pixels ! (4 * i + 3)) \<Longrightarrow>
   n < snd (pixelLoop pixels (h, n))"
proof (induction pixels "(h, n)" arbitrary: h n rule: pixelLoop.induct)
  case (1 r g b alpha rest histogram pixelCount)
  have rest: "length rest mod 4 = 0" using "1.prems"(1) by simp
  show ?case
  proof (cases "unat alpha < 128")
    case True
    have "128 \<le> unat alpha \<or>
        (\<exists>i. 4 * i + 3 < length rest \<and> 128 \<le> unat (rest ! (4 * i + 3)))"
      using "1.prems"(2) unfolding visible_cons [where P = "\<lambda>v. 128 \<le> unat v"] .
    with True have "\<exists>i. 4 * i + 3 < length rest \<and> 128 \<le> unat (rest ! (4 * i + 3))"
      by auto
    with 1(1) [OF True rest] True show ?thesis by simp
  next
    case False
    have "pixelCount + 1 \<le>
        snd (pixelLoop rest
          (histogram[binIndex r g b := incF32 (histogram ! binIndex r g b)], pixelCount + 1))"
      by (rule pixelLoop_count_mono)
    with False show ?thesis by simp
  qed
qed simp_all

lemma pixelLoop_invisible:
  "length pixels mod 4 = 0 \<Longrightarrow>
   \<not> (\<exists>i. 4 * i + 3 < length pixels \<and> 128 \<le> unat (pixels ! (4 * i + 3))) \<Longrightarrow>
   pixelLoop pixels (h, n) = (h, n)"
proof (induction pixels "(h, n)" arbitrary: h n rule: pixelLoop.induct)
  case (1 r g b alpha rest histogram pixelCount)
  have rest: "length rest mod 4 = 0" using "1.prems"(1) by simp
  have no: "\<not> (128 \<le> unat alpha \<or>
        (\<exists>i. 4 * i + 3 < length rest \<and> 128 \<le> unat (rest ! (4 * i + 3))))"
    using "1.prems"(2) unfolding visible_cons [where P = "\<lambda>v. 128 \<le> unat v"] .
  then have a: "unat alpha < 128" by auto
  from no have "\<not> (\<exists>i. 4 * i + 3 < length rest \<and> 128 \<le> unat (rest ! (4 * i + 3)))"
    by blast
  with 1(1) [OF a rest] a show ?case by simp
qed simp_all

text \<open>The rounding error.\<close>

lemma roundHalfEven_err:
  assumes "0 < den"
  shows "\<bar>real (roundHalfEven num den) - real num / real den\<bar> \<le> 1 / 2"
proof -
  define f where "f = num div den"
  define r where "r = num mod den"
  have "num = f * den + r"
    unfolding f_def r_def by simp
  then have "real num = real f * real den + real r"
    by (metis of_nat_add of_nat_mult)
  then have q: "real num / real den = real f + real r / real den"
    using assms by (simp add: field_simps)
  have r: "r < den" unfolding r_def using assms by simp
  have d: "0 < real den" using assms by simp
  consider "2 * r > den" | "2 * r < den" | "2 * r = den" by linarith
  then show ?thesis
  proof cases
    case 1
    then have "roundHalfEven num den = f + 1"
      by (simp add: roundHalfEven_def f_def r_def Let_def)
    moreover have "1 / 2 \<le> real r / real den" "real r / real den \<le> 1"
      using 1 r d by (simp_all add: field_simps)
    ultimately show ?thesis using q by simp
  next
    case 2
    then have "roundHalfEven num den = f"
      by (simp add: roundHalfEven_def f_def r_def Let_def)
    moreover have "real r / real den \<le> 1 / 2" "0 \<le> real r / real den"
      using 2 d by (simp_all add: field_simps)
    ultimately show ?thesis using q by simp
  next
    case 3
    then have "roundHalfEven num den = f \<or> roundHalfEven num den = f + 1"
      by (simp add: roundHalfEven_def f_def r_def Let_def)
    moreover have "real r / real den = 1 / 2"
      using 3 d by (simp add: field_simps)
    ultimately show ?thesis using q by auto
  qed
qed

lemma scaleFor_post: "0 < a \<Longrightarrow> b * 2 ^ (p - 1) \<le> a * 2 ^ scaleFor p a b k"
proof (induction p a b k rule: scaleFor.induct)
  case (1 p a b k)
  show ?case
  proof (cases "b * 2 ^ (p - 1) \<le> a * 2 ^ k")
    case True
    then show ?thesis by (subst scaleFor.simps) simp
  next
    case False
    with 1 show ?thesis by (subst scaleFor.simps) simp
  qed
qed

lemma roundQuot_err:
  assumes "0 < b" "0 < p" "roundQuot p a b = (m, k)"
  shows "\<bar>real m / 2 ^ k - real a / real b\<bar> \<le> real a / real b / 2 ^ p"
proof (cases "a = 0")
  case True
  with assms(3) show ?thesis by (simp add: roundQuot_def)
next
  case False
  then have a: "0 < a" by simp
  have k: "k = scaleFor p a b (p - 1)"
    using assms(3) False by (auto simp: roundQuot_def Let_def)
  have m: "m = roundHalfEven (a * 2 ^ k) b"
    using assms(3) False by (auto simp: roundQuot_def Let_def)
  have "b * 2 ^ (p - 1) \<le> a * 2 ^ k"
    unfolding k using a by (rule scaleFor_post)
  then have "real (b * 2 ^ (p - 1)) \<le> real (a * 2 ^ k)"
    by (rule of_nat_mono)
  then have low: "real b * 2 ^ (p - 1) \<le> real a * 2 ^ k" by simp
  have pp: "(2::real) ^ p = 2 * 2 ^ (p - 1)"
    using assms(2) by (cases p) simp_all
  have "\<bar>real m - real (a * 2 ^ k) / real b\<bar> \<le> 1 / 2"
    unfolding m using assms(1) by (rule roundHalfEven_err)
  then have "\<bar>real m - real a * 2 ^ k / real b\<bar> \<le> 1 / 2" by simp
  then have "\<bar>real m - real a * 2 ^ k / real b\<bar> / 2 ^ k \<le> 1 / 2 / 2 ^ k"
    by (intro divide_right_mono) simp_all
  moreover have "\<bar>real m - real a * 2 ^ k / real b\<bar> / 2 ^ k =
      \<bar>real m / 2 ^ k - real a / real b\<bar>"
  proof -
    have "\<bar>real m - real a * 2 ^ k / real b\<bar> / 2 ^ k =
        \<bar>(real m - real a * 2 ^ k / real b) / 2 ^ k\<bar>"
      by simp
    also have "(real m - real a * 2 ^ k / real b) / 2 ^ k = real m / 2 ^ k - real a / real b"
      by (simp add: field_simps)
    finally show ?thesis .
  qed
  moreover have "(1::real) / 2 / 2 ^ k \<le> real a / real b / 2 ^ p"
  proof -
    have "real b * 2 ^ p \<le> 2 * (real a * 2 ^ k)"
      using low by (simp add: pp)
    then show ?thesis
      using assms(1) by (simp add: field_simps)
  qed
  ultimately show ?thesis by linarith
qed

lemma divF32_nonneg: "0 \<le> divF32 v n"
  by (simp add: divF32_def split: prod.splits)

lemma divF32_err:
  assumes "0 < n"
  shows "\<bar>divF32 v n - real v / real n\<bar> \<le> real v / real n / 2 ^ 23"
proof -
  obtain m j where mj: "roundQuot 53 v n = (m, j)" by (cases "roundQuot 53 v n")
  obtain m' j' where mj': "roundQuot 24 m (2 ^ j) = (m', j')"
    by (cases "roundQuot 24 m (2 ^ j)")
  define x where "x = real v / real n"
  define d where "d = real m / 2 ^ j"
  have f: "divF32 v n = real m' / 2 ^ j'"
    by (simp add: divF32_def mj mj')
  have x0: "0 \<le> x" by (simp add: x_def)
  have e1: "\<bar>d - x\<bar> \<le> x / 2 ^ 53"
    unfolding d_def x_def using assms mj by (intro roundQuot_err) simp_all
  have "\<bar>real m' / 2 ^ j' - real m / real ((2::nat) ^ j)\<bar> \<le> real m / real ((2::nat) ^ j) / 2 ^ 24"
    using mj' by (intro roundQuot_err) simp_all
  then have e2: "\<bar>real m' / 2 ^ j' - d\<bar> \<le> d / 2 ^ 24"
    by (simp add: d_def)
  have "d \<le> x + x / 2 ^ 53" using e1 by linarith
  then have "d / 2 ^ 24 \<le> (x + x / 2 ^ 53) / 2 ^ 24"
    by (intro divide_right_mono) simp_all
  with e1 e2 have "\<bar>real m' / 2 ^ j' - x\<bar> \<le> x / 2 ^ 53 + (x + x / 2 ^ 53) / 2 ^ 24"
    by linarith
  also have "\<dots> \<le> x / 2 ^ 23"
    using x0 by simp
  finally show ?thesis by (simp add: f x_def)
qed

lemma sum_list_err:
  fixes g h e :: "nat \<Rightarrow> real"
  assumes "\<forall>c\<in>set cs. \<bar>g c - h c\<bar> \<le> e c"
  shows "\<bar>sum_list (map g cs) - sum_list (map h cs)\<bar> \<le> sum_list (map e cs)"
  using assms
proof (induction cs)
  case Nil
  then show ?case by simp
next
  case (Cons c cs)
  then have "\<bar>g c - h c\<bar> \<le> e c"
    "\<bar>sum_list (map g cs) - sum_list (map h cs)\<bar> \<le> sum_list (map e cs)"
    by simp_all
  then show ?case by simp
qed

lemma sum_list_shares:
  "sum_list (map (\<lambda>c. real c / real n / k) cs) = real (sum_list cs) / real n / k"
  by (induction cs) (simp_all add: add_divide_distrib)

text \<open>
  Claim C6, as the code has it. For the bytes of a pixel buffer (four to a pixel),
  \<^verbatim>\<open>computeColorHistogram\<close> returns 64 non-negative values, all 0 when no pixel has
  alpha at least 128, with no division. When some pixel has, every value is its bin's share
  of the counted pixels rounded to a 32-bit float, so the values sum to 1 up to that
  rounding: for a buffer of at most \<open>2\<^bsup>24\<^esup>\<close> pixels the sum is within \<open>2\<^bsup>-23\<^esup>\<close> of 1.
\<close>

theorem computeColorHistogram_props:
  assumes "length pixels mod 4 = 0"
  shows "length (computeColorHistogram pixels) = 64 \<and>
    (\<forall>x\<in>set (computeColorHistogram pixels). 0 \<le> x) \<and>
    ((\<exists>i. 4 * i + 3 < length pixels \<and> 128 \<le> unat (pixels ! (4 * i + 3))) \<and>
     length pixels \<le> 4 * 16777216 \<longrightarrow>
       \<bar>sum_list (computeColorHistogram pixels) - 1\<bar> \<le> 1 / 2 ^ 23) \<and>
    (\<not> (\<exists>i. 4 * i + 3 < length pixels \<and> 128 \<le> unat (pixels ! (4 * i + 3))) \<longrightarrow>
       computeColorHistogram pixels = replicate 64 0)"
proof -
  define z :: "nat list" where "z = replicate 64 0"
  obtain H n where loop: "pixelLoop pixels (z, 0) = (H, n)"
    by (cases "pixelLoop pixels (z, 0)")
  have z: "length z = 64" "sum_list z = 0"
    by (simp_all add: z_def sum_list_replicate)
  have cch: "computeColorHistogram pixels =
      (if n > 0 then map (\<lambda>v. divF32 v n) H else map real H)"
    by (simp add: computeColorHistogram_def BINS_PER_CHANNEL_def z_def [symmetric] loop)
  have len: "length H = 64"
    using pixelLoop_length [of pixels z 0] z(1) loop by simp
  have 1: "length (computeColorHistogram pixels) = 64"
    by (simp add: cch len)
  have 2: "\<forall>x\<in>set (computeColorHistogram pixels). 0 \<le> x"
    by (auto simp: cch divF32_nonneg)
  have 3: "\<bar>sum_list (computeColorHistogram pixels) - 1\<bar> \<le> 1 / 2 ^ 23"
    if vis: "\<exists>i. 4 * i + 3 < length pixels \<and> 128 \<le> unat (pixels ! (4 * i + 3))"
      and small: "length pixels \<le> 4 * 16777216"
  proof -
    have n: "0 < n" using pixelLoop_visible [OF assms vis, of 0 z] loop by simp
    have "0 + length pixels div 4 \<le> 16777216" using small by simp
    from pixelLoop_sum [OF assms z(1) z(2) this] loop have sum: "sum_list H = n" by simp
    have "\<forall>c\<in>set H. \<bar>divF32 c n - real c / real n\<bar> \<le> real c / real n / 2 ^ 23"
      using divF32_err [OF n] by blast
    then have "\<bar>sum_list (map (\<lambda>c. divF32 c n) H) - sum_list (map (\<lambda>c. real c / real n) H)\<bar>
        \<le> sum_list (map (\<lambda>c. real c / real n / 2 ^ 23) H)"
      by (rule sum_list_err)
    moreover have "sum_list (map (\<lambda>c. real c / real n / 2 ^ 23) H) = 1 / 2 ^ 23"
      using n by (simp only: sum_list_shares sum) simp
    moreover have "sum_list (map (\<lambda>c. real c / real n) H) = 1"
      using n sum_list_shares [of n 1 H] by (simp add: sum)
    ultimately show ?thesis using n by (simp add: cch)
  qed
  have 4: "computeColorHistogram pixels = replicate 64 0"
    if "\<not> (\<exists>i. 4 * i + 3 < length pixels \<and> 128 \<le> unat (pixels ! (4 * i + 3)))"
  proof -
    have "(H, n) = (z, 0)" using pixelLoop_invisible [OF assms that, of z 0] loop by simp
    then show ?thesis by (simp add: cch z_def)
  qed
  show ?thesis using 1 2 3 4 by blast
qed

lemma incF32_small: "incF32 0 = 1" "incF32 1 = 2"
  by (simp_all add: incF32_def)

lemma dataEx_loop:
  "pixelLoop dataEx (replicate 64 0, 0) = ((replicate 64 0)[48 := 1, 3 := 1, 48 := 2], 3)"
proof -
  have "pixelLoop dataEx (replicate 64 0, 0) =
      ((replicate 64 0)[48 := incF32 0, 3 := incF32 0, 48 := incF32 (incF32 0)], 3)"
    by (simp add: dataEx_def binIndex_def binOf_def)
  then show ?thesis by (simp only: incF32_small)
qed

lemma roundQuot_third:
  "roundQuot 53 1 3 = (6004799503160661, 54)"
  "roundQuot 24 6004799503160661 (2 ^ 54) = (11184811, 25)"
  "roundQuot 53 2 3 = (6004799503160661, 53)"
  "roundQuot 24 6004799503160661 (2 ^ 53) = (11184811, 24)"
  by (simp_all add: roundQuot_def scaleFor.simps roundHalfEven_def Let_def)

lemma divF32_thirds:
  "divF32 0 3 = 0" "divF32 1 3 = 11184811 / 33554432" "divF32 2 3 = 11184811 / 16777216"
proof -
  show "divF32 0 3 = 0" by (simp add: divF32_def roundQuot_def)
  show "divF32 1 3 = 11184811 / 33554432"
    by (simp only: divF32_def roundQuot_third prod.case) simp
  show "divF32 2 3 = 11184811 / 16777216"
    by (simp only: divF32_def roundQuot_third prod.case) simp
qed

lemma sum_list_update_real:
  fixes xs :: "real list"
  shows "i < length xs \<Longrightarrow> sum_list (xs[i := v]) = sum_list xs - xs ! i + v"
proof (induction xs arbitrary: i)
  case Nil
  then show ?case by simp
next
  case (Cons x xs)
  then show ?case by (cases i) simp_all
qed

lemma computeColorHistogram_dataEx:
  "computeColorHistogram dataEx =
     (replicate 64 0)[48 := 11184811 / 33554432, 3 := 11184811 / 33554432,
                      48 := 11184811 / 16777216]"
proof -
  have "computeColorHistogram dataEx =
      map (\<lambda>v. divF32 v 3) ((replicate 64 0)[48 := 1, 3 := 1, 48 := 2])"
    by (simp add: computeColorHistogram_def BINS_PER_CHANNEL_def dataEx_loop)
  also have "\<dots> = (replicate 64 (divF32 0 3))[48 := divF32 1 3, 3 := divF32 1 3,
      48 := divF32 2 3]"
    by (simp only: map_update map_replicate)
  finally show ?thesis by (simp only: divF32_thirds)
qed

text \<open>
  Three counted pixels, two in bin 48 and one in bin 3: the values are the floats nearest
  to \<open>2/3\<close> and \<open>1/3\<close>, and their sum is \<open>1 + 2\<^bsup>-25\<^esup>\<close>, not 1.
\<close>

theorem computeColorHistogram_sum_not_one:
  "length dataEx mod 4 = 0 \<and>
   4 * 0 + 3 < length dataEx \<and> 128 \<le> unat (dataEx ! (4 * 0 + 3)) \<and>
   computeColorHistogram dataEx ! 48 = 11184811 / 16777216 \<and>
   computeColorHistogram dataEx ! 3 = 11184811 / 33554432 \<and>
   sum_list (computeColorHistogram dataEx) = 33554433 / 33554432 \<and>
   sum_list (computeColorHistogram dataEx) \<noteq> 1"
proof -
  have s: "sum_list (computeColorHistogram dataEx) = 33554433 / 33554432"
    unfolding computeColorHistogram_dataEx
    by (simp add: sum_list_update_real sum_list_replicate)
  have d: "length dataEx mod 4 = 0 \<and> 4 * 0 + 3 < length dataEx \<and>
      128 \<le> unat (dataEx ! (4 * 0 + 3))"
    by (simp add: dataEx_def)
  have n: "computeColorHistogram dataEx ! 48 = 11184811 / 16777216"
    "computeColorHistogram dataEx ! 3 = 11184811 / 33554432"
    unfolding computeColorHistogram_dataEx by simp_all
  show ?thesis using s d n by simp
qed

theorem computeColorHistogram_props_witness:
  "length dataEx mod 4 = 0 \<and>
   4 * 0 + 3 < length dataEx \<and> 128 \<le> unat (dataEx ! (4 * 0 + 3)) \<and>
   length dataEx \<le> 4 * 16777216 \<and>
   length (computeColorHistogram dataEx) = 64 \<and>
   list_all (\<lambda>x. 0 \<le> x) (computeColorHistogram dataEx) \<and>
   \<bar>sum_list (computeColorHistogram dataEx) - 1\<bar> \<le> 1 / 2 ^ 23 \<and>
   computeColorHistogram [10, 20, 30, 127] = replicate 64 0"
proof -
  have m: "length dataEx mod 4 = 0" by (simp add: dataEx_def)
  have v: "4 * 0 + 3 < length dataEx \<and> 128 \<le> unat (dataEx ! (4 * 0 + 3))"
    by (simp add: dataEx_def)
  then have e: "\<exists>i. 4 * i + 3 < length dataEx \<and> 128 \<le> unat (dataEx ! (4 * i + 3))"
    by (rule exI)
  have l: "length dataEx \<le> 4 * 16777216" by (simp add: dataEx_def)
  have m': "length [10, 20, 30, 127 :: 8 word] mod 4 = 0" by simp
  have n': "\<not> (\<exists>i. 4 * i + 3 < length [10, 20, 30, 127 :: 8 word] \<and>
      128 \<le> unat ([10, 20, 30, 127 :: 8 word] ! (4 * i + 3)))"
    by auto
  show ?thesis
    using m v e l n' computeColorHistogram_props [OF m] computeColorHistogram_props [OF m']
    by (simp add: list_all_iff)
qed

section \<open>Properties of the cache store\<close>

lemma data_doSave: "data (doSave c) = data c"
  by (simp add: doSave_def Let_def)

lemma data_save: "data (save immediate c) = data c"
  by (simp add: save_def Let_def data_doSave)

lemma getHash_data: "data c' = data c \<Longrightarrow> getHash i c' = getHash i c"
  by (simp add: getHash_def)

lemma hasValidHash_data: "data c' = data c \<Longrightarrow> hasValidHash i c' = hasValidHash i c"
  by (simp add: hasValidHash_def)

lemma getHash_flush: "getHash i (flush c) = getHash i c"
  by (rule getHash_data) (simp add: flush_def data_doSave)

lemma data_setHash:
  "data (setHash i r c) =
     (case data c of None \<Rightarrow> None
      | Some d \<Rightarrow> Some (d\<lparr>items := setItem i r (items d)\<rparr>))"
  by (simp add: setHash_def data_save split: option.splits)

lemma recordProperty_not_Rec: "recordProperty p key \<noteq> Some (Rec r)"
  by (auto simp: recordProperty_def)

lemma recordProperty__proto__: "recordProperty p ''__proto__'' = None"
  by (simp add: recordProperty_def)

lemma getItem_cong:
  "map_of (own a) j = map_of (own b) j \<Longrightarrow> proto a = proto b \<Longrightarrow> getItem a j = getItem b j"
  unfolding getItem_def by (simp only:)

lemma getItem_own: "map_of (own obj) key = Some r \<Longrightarrow> getItem obj key = Some (Rec r)"
  by (simp add: getItem_def)

lemma getItem_proto_key:
  "map_of (own obj) ''__proto__'' = None \<Longrightarrow> proto obj = Some p \<Longrightarrow>
   getItem obj ''__proto__'' = Some (Rec p)"
  by (simp add: getItem_def recordProperty__proto__)

lemma getItem_setItem_same: "getItem (setItem key v obj) key = Some (Rec v)"
proof (cases "key = ''__proto__'' \<and> map_of (own obj) key = None")
  case True
  then have k: "key = ''__proto__''" and n: "map_of (own obj) ''__proto__'' = None"
    by blast+
  have "setItem key v obj = obj\<lparr>proto := Some v\<rparr>"
    using k n by (simp add: setItem_def)
  moreover have "getItem (obj\<lparr>proto := Some v\<rparr>) ''__proto__'' = Some (Rec v)"
  proof (rule getItem_proto_key)
    show "map_of (own (obj\<lparr>proto := Some v\<rparr>)) ''__proto__'' = None"
      using n by simp
    show "proto (obj\<lparr>proto := Some v\<rparr>) = Some v" by simp
  qed
  ultimately show ?thesis using k by simp
next
  case False
  then have "setItem key v obj = obj\<lparr>own := AList.update key v (own obj)\<rparr>"
    by (auto simp: setItem_def)
  moreover have "getItem (obj\<lparr>own := AList.update key v (own obj)\<rparr>) key = Some (Rec v)"
    by (intro getItem_own) (simp add: update_conv')
  ultimately show ?thesis by simp
qed

lemma getItem_Rec_cases:
  assumes "getItem obj j = Some (Rec r)"
  shows "map_of (own obj) j = Some r \<or>
         (map_of (own obj) j = None \<and> j = ''__proto__'' \<and> proto obj = Some r)"
proof (cases "map_of (own obj) j")
  case (Some r')
  with assms show ?thesis by (simp add: getItem_def)
next
  case None
  note own = this
  show ?thesis
  proof (cases "proto obj")
    case None
    with assms own show ?thesis
      by (auto simp: getItem_def split: if_splits)
  next
    case (Some p)
    show ?thesis
    proof (cases "recordProperty p j")
      case None
      with assms own Some show ?thesis
        by (auto simp: getItem_def split: if_splits)
    next
      case (Some v)
      with assms own \<open>proto obj = Some p\<close> have "recordProperty p j = Some (Rec r)"
        by (simp add: getItem_def)
      then show ?thesis using recordProperty_not_Rec by blast
    qed
  qed
qed

lemma getItem_setItem_Rec:
  assumes "j \<noteq> key" "getItem obj j = Some (Rec r)"
  shows "getItem (setItem key v obj) j = Some (Rec r)"
proof -
  from getItem_Rec_cases [OF assms(2)] show ?thesis
  proof
    assume o: "map_of (own obj) j = Some r"
    then have "map_of (own (setItem key v obj)) j = Some r"
      using assms(1) by (simp add: setItem_def update_conv')
    then show ?thesis by (rule getItem_own)
  next
    assume p: "map_of (own obj) j = None \<and> j = ''__proto__'' \<and> proto obj = Some r"
    with assms(1) have "setItem key v obj = obj\<lparr>own := AList.update key v (own obj)\<rparr>"
      by (auto simp: setItem_def)
    moreover have "map_of (AList.update key v (own obj)) ''__proto__'' = None"
      using p assms(1) by (auto simp: update_conv')
    then have "getItem (obj\<lparr>own := AList.update key v (own obj)\<rparr>) ''__proto__'' = Some (Rec r)"
      using p by (intro getItem_proto_key) simp_all
    ultimately show ?thesis
      using p by simp
  qed
qed

lemma getHash_Rec_iff:
  "getHash j c = Some (Rec r) \<longleftrightarrow> (\<exists>d. data c = Some d \<and> getItem (items d) j = Some (Rec r))"
  by (auto simp: getHash_def split: option.splits if_splits)

lemma getHash_setHash_same: "data c \<noteq> None \<Longrightarrow> getHash i (setHash i r c) = Some (Rec r)"
  by (auto simp: getHash_Rec_iff data_setHash getItem_setItem_same)

lemma getHash_setHash_Rec:
  "j \<noteq> i \<Longrightarrow> getHash j c = Some (Rec r) \<Longrightarrow> getHash j (setHash i v c) = Some (Rec r)"
  by (auto simp: getHash_Rec_iff data_setHash getItem_setItem_Rec)

lemma hasValidHash_Rec: "hasValidHash j c \<Longrightarrow> \<exists>r. getHash j c = Some (Rec r)"
  by (auto simp: hasValidHash_def getHash_Rec_iff split: option.splits jsValue.splits)

lemma orphanLoop_map_of:
  "map_of (fst (orphanLoop validIds cacheIds (its, removed))) j =
     (if j \<in> set cacheIds \<and> j \<notin> set validIds then None else map_of its j)"
proof (induction cacheIds arbitrary: its removed)
  case Nil
  then show ?case by simp
next
  case (Cons i cacheIds)
  show ?case
  proof (cases "i \<in> set validIds")
    case True
    then show ?thesis using Cons [of its removed] by auto
  next
    case False
    then show ?thesis
      using Cons [of "AList.delete i its" "removed + 1"]
      by (auto simp: delete_conv')
  qed
qed

lemma data_removeOrphans:
  assumes "data c = Some d"
  shows "\<exists>its. data (removeOrphans validIds c) = Some (d\<lparr>items := (items d)\<lparr>own := its\<rparr>\<rparr>) \<and>
     (\<forall>j. map_of its j =
        (if j \<in> set (map fst (own (items d))) \<and> j \<notin> set validIds then None
         else map_of (own (items d)) j))"
proof -
  obtain its removed where loop:
    "orphanLoop validIds (map fst (own (items d))) (own (items d), 0) = (its, removed)"
    by (cases "orphanLoop validIds (map fst (own (items d))) (own (items d), 0)")
  have "data (removeOrphans validIds c) = Some (d\<lparr>items := (items d)\<lparr>own := its\<rparr>\<rparr>)"
    using assms loop by (simp add: removeOrphans_def Let_def data_save)
  moreover have "\<forall>j. map_of its j =
        (if j \<in> set (map fst (own (items d))) \<and> j \<notin> set validIds then None
         else map_of (own (items d)) j)"
    using orphanLoop_map_of [of validIds "map fst (own (items d))" "own (items d)" 0] loop
    by simp
  ultimately show ?thesis by blast
qed

lemma getHash_removeOrphans:
  assumes "j \<in> set validIds"
  shows "getHash j (removeOrphans validIds c) = getHash j c"
proof (cases "data c")
  case None
  then show ?thesis by (simp add: removeOrphans_def)
next
  case (Some d)
  from data_removeOrphans [OF Some, of validIds] obtain its where
    d': "data (removeOrphans validIds c) = Some (d\<lparr>items := (items d)\<lparr>own := its\<rparr>\<rparr>)"
    and m: "map_of its j = map_of (own (items d)) j"
    using assms by auto
  have "getItem ((items d)\<lparr>own := its\<rparr>) j = getItem (items d) j"
    by (rule getItem_cong) (simp_all add: m)
  then show ?thesis using Some d' by (simp add: getHash_def)
qed

lemma ownKeys_removeOrphans: "ownKeys (removeOrphans validIds c) \<subseteq> set validIds"
proof (cases "data c")
  case None
  then show ?thesis by (simp add: removeOrphans_def ownKeys_def)
next
  case (Some d)
  from data_removeOrphans [OF Some, of validIds] obtain its where
    d': "data (removeOrphans validIds c) = Some (d\<lparr>items := (items d)\<lparr>own := its\<rparr>\<rparr>)"
    and m: "\<forall>j. map_of its j =
        (if j \<in> set (map fst (own (items d))) \<and> j \<notin> set validIds then None
         else map_of (own (items d)) j)"
    by auto
  have "j \<in> set validIds" if "j \<in> fst ` set its" for j
  proof -
    from that have "map_of its j \<noteq> None" by (simp add: map_of_eq_None_iff)
    with m have "\<not> (j \<in> set (map fst (own (items d))) \<and> j \<notin> set validIds)"
      and "map_of (own (items d)) j \<noteq> None"
      by (metis, metis)
    then show ?thesis by (auto simp: map_of_eq_None_iff)
  qed
  then show ?thesis using d' by (auto simp: ownKeys_def)
qed

lemma ownKeys_setHash: "ownKeys (setHash i r c) \<subseteq> insert i (ownKeys c)"
  by (cases "data c") (auto simp: ownKeys_def data_setHash setItem_def dom_update)

lemma ownKeys_flush: "ownKeys (flush c) = ownKeys c"
  by (simp add: ownKeys_def flush_def data_doSave)




lemma load_match:
  "cacheFile c = Parsed stored \<Longrightarrow> storedVersion stored = CACHE_VERSION \<Longrightarrow>
   storedLibraryPath stored = libPath \<Longrightarrow> data (load libPath c) = Some (parse stored)"
  by (simp add: load_def parse_def Let_def)




section \<open>Properties of the indexer\<close>

lemma getHash_hashItem_Rec:
  "itemId item \<noteq> j \<Longrightarrow> getHash j c = Some (Rec r) \<Longrightarrow>
   getHash j (hashItem env item c) = Some (Rec r)"
  by (auto simp: hashItem_def getHash_setHash_Rec split: option.splits)

lemma getHash_chunk_Rec:
  "\<forall>item\<in>set chunk. itemId item \<noteq> j \<Longrightarrow> getHash j c = Some (Rec r) \<Longrightarrow>
   getHash j (foldl (\<lambda>c' item. hashItem env item c') c chunk) = Some (Rec r)"
  by (induction chunk arbitrary: c) (simp_all add: getHash_hashItem_Rec)

lemma getHash_phashLoop_Rec:
  "\<forall>item\<in>set toIndex. itemId item \<noteq> j \<Longrightarrow> getHash j c = Some (Rec r) \<Longrightarrow>
   getHash j (phashLoop env toIndex i c) = Some (Rec r)"
proof (induction env toIndex i c rule: phashLoop.induct)
  case (1 env toIndex i c)
  show ?case
  proof (cases "i < length toIndex \<and> \<not> shouldStop env i")
    case True
    let ?chunk = "take CHUNK_SIZE (drop i toIndex)"
    have sub: "\<forall>item\<in>set ?chunk. itemId item \<noteq> j"
      using "1.prems"(1) by (meson in_set_dropD in_set_takeD)
    have step: "getHash j (foldl (\<lambda>c' item. hashItem env item c') c ?chunk) = Some (Rec r)"
      using sub "1.prems"(2) by (rule getHash_chunk_Rec)
    have "getHash j (phashLoop env toIndex i c) =
        getHash j (phashLoop env toIndex (i + CHUNK_SIZE)
          (foldl (\<lambda>c' item. hashItem env item c') c ?chunk))"
      using True by (subst phashLoop.simps) (simp add: Let_def)
    also have "\<dots> = Some (Rec r)"
      using True "1.prems"(1) step by (intro "1.IH") auto
    finally show ?thesis .
  next
    case False
    then have "phashLoop env toIndex i c = c" by (subst phashLoop.simps) auto
    with "1.prems"(2) show ?thesis by simp
  qed
qed

lemma ownKeys_hashItem: "ownKeys (hashItem env item c) \<subseteq> insert (itemId item) (ownKeys c)"
  using ownKeys_setHash by (auto simp: hashItem_def split: option.splits)

lemma ownKeys_chunk:
  "ownKeys c \<subseteq> S \<Longrightarrow> itemId ` set chunk \<subseteq> S \<Longrightarrow>
   ownKeys (foldl (\<lambda>c' item. hashItem env item c') c chunk) \<subseteq> S"
proof (induction chunk arbitrary: c)
  case Nil
  then show ?case by simp
next
  case (Cons item chunk)
  have "ownKeys (hashItem env item c) \<subseteq> S"
    using ownKeys_hashItem [of env item c] Cons.prems by auto
  then show ?case using Cons by simp
qed

lemma ownKeys_phashLoop:
  "ownKeys c \<subseteq> S \<Longrightarrow> itemId ` set toIndex \<subseteq> S \<Longrightarrow>
   ownKeys (phashLoop env toIndex i c) \<subseteq> S"
proof (induction env toIndex i c rule: phashLoop.induct)
  case (1 env toIndex i c)
  show ?case
  proof (cases "i < length toIndex \<and> \<not> shouldStop env i")
    case True
    let ?chunk = "take CHUNK_SIZE (drop i toIndex)"
    have "itemId ` set ?chunk \<subseteq> S"
      using "1.prems"(2) by (meson image_subset_iff in_set_dropD in_set_takeD)
    then have step: "ownKeys (foldl (\<lambda>c' item. hashItem env item c') c ?chunk) \<subseteq> S"
      using "1.prems"(1) by (intro ownKeys_chunk)
    have "phashLoop env toIndex i c =
        phashLoop env toIndex (i + CHUNK_SIZE)
          (foldl (\<lambda>c' item. hashItem env item c') c ?chunk)"
      using True by (subst phashLoop.simps) (simp add: Let_def)
    moreover have "ownKeys (phashLoop env toIndex (i + CHUNK_SIZE)
          (foldl (\<lambda>c' item. hashItem env item c') c ?chunk)) \<subseteq> S"
      using True "1.prems"(2) step by (intro "1.IH") auto
    ultimately show ?thesis by simp
  next
    case False
    then have "phashLoop env toIndex i c = c" by (subst phashLoop.simps) auto
    with "1.prems"(1) show ?thesis by simp
  qed
qed

lemma indexPhash_all_indexed:
  assumes "\<forall>item\<in>set libItems. isImageType (itemExt item) \<longrightarrow> hasValidHash (itemId item) c"
  shows "indexPhash env libItems c = c"
proof -
  have "filter (\<lambda>item. isImageType (itemExt item) \<and> \<not> hasValidHash (itemId item) c) libItems = []"
    using assms by (auto simp: filter_empty_conv)
  then show ?thesis by (simp add: indexPhash_def)
qed

lemma indexPhash_complete_unchanged:
  assumes "hasValidHash j c" and "j \<in> set (map itemId libItems)"
  shows "getHash j (indexPhash env libItems c) = getHash j c"
proof -
  define toIndex where
    "toIndex = filter (\<lambda>item. isImageType (itemExt item) \<and> \<not> hasValidHash (itemId item) c)
       libItems"
  obtain r where r: "getHash j c = Some (Rec r)"
    using hasValidHash_Rec [OF assms(1)] by blast
  have other: "\<forall>item\<in>set toIndex. itemId item \<noteq> j"
    using assms(1) by (auto simp: toIndex_def)
  show ?thesis
  proof (cases "toIndex = []")
    case True
    then show ?thesis by (simp add: indexPhash_def toIndex_def [symmetric])
  next
    case False
    then have "indexPhash env libItems c =
        flush (phashLoop env toIndex 0 (removeOrphans (map itemId libItems) c))"
      by (simp add: indexPhash_def toIndex_def [symmetric] Let_def)
    moreover have "getHash j (removeOrphans (map itemId libItems) c) = Some (Rec r)"
      using getHash_removeOrphans [OF assms(2), of c] r by simp
    ultimately show ?thesis
      using other r by (simp add: getHash_flush getHash_phashLoop_Rec)
  qed
qed

lemma indexPhash_prunes_when_work:
  assumes "filter (\<lambda>item. isImageType (itemExt item) \<and> \<not> hasValidHash (itemId item) c)
             libItems \<noteq> []"
  shows "ownKeys (indexPhash env libItems c) \<subseteq> set (map itemId libItems)"
proof -
  define toIndex where
    "toIndex = filter (\<lambda>item. isImageType (itemExt item) \<and> \<not> hasValidHash (itemId item) c)
       libItems"
  have "indexPhash env libItems c =
      flush (phashLoop env toIndex 0 (removeOrphans (map itemId libItems) c))"
    using assms by (simp add: indexPhash_def toIndex_def [symmetric] Let_def)
  moreover have "ownKeys (phashLoop env toIndex 0 (removeOrphans (map itemId libItems) c))
      \<subseteq> set (map itemId libItems)"
  proof (rule ownKeys_phashLoop)
    show "ownKeys (removeOrphans (map itemId libItems) c) \<subseteq> set (map itemId libItems)"
      by (rule ownKeys_removeOrphans)
    show "itemId ` set toIndex \<subseteq> set (map itemId libItems)"
      by (auto simp: toIndex_def)
  qed
  ultimately show ?thesis by (simp add: ownKeys_flush)
qed

text \<open>The embedding phase.\<close>

lemma embedItem_keeps:
  assumes "getHash j c = Some (Rec r')" "keepsFields r r'"
    and "itemId item = j \<longrightarrow> embedding r = None"
  shows "\<exists>r''. getHash j (embedItem env item c) = Some (Rec r'') \<and> keepsFields r r''"
proof (cases "getHashPath item")
  case None
  with assms show ?thesis by (simp add: embedItem_def)
next
  case (Some hashPath)
  show ?thesis
  proof (cases "computeEmbedding env hashPath")
    case None
    with Some assms show ?thesis by (simp add: embedItem_def)
  next
    case (Some e)
    note e = this
    have d: "data c \<noteq> None" using assms(1) by (auto simp: getHash_Rec_iff)
    show ?thesis
    proof (cases "itemId item = j")
      case True
      then have "getHash j (embedItem env item c) = Some (Rec (r'\<lparr>embedding := Some e\<rparr>))"
        using \<open>getHashPath item = Some hashPath\<close> e assms(1) d
        by (simp add: embedItem_def Let_def getHash_setHash_same)
      moreover have "keepsFields r (r'\<lparr>embedding := Some e\<rparr>)"
        using assms(2,3) True by (simp add: keepsFields_def)
      ultimately show ?thesis by blast
    next
      case False
      then have "getHash j (embedItem env item c) = Some (Rec r')"
        using \<open>getHashPath item = Some hashPath\<close> e assms(1)
        by (simp add: embedItem_def Let_def getHash_setHash_Rec)
      with assms(2) show ?thesis by simp
    qed
  qed
qed

lemma clipLoop_keeps:
  assumes "getHash j c = Some (Rec r')" "keepsFields r r'"
    and "\<forall>item\<in>set toEmbed. itemId item = j \<longrightarrow> embedding r = None"
  shows "\<exists>r''. getHash j (clipLoop env toEmbed i c) = Some (Rec r'') \<and> keepsFields r r''"
  using assms
proof (induction env toEmbed i c arbitrary: r' rule: clipLoop.induct)
  case (1 env toEmbed i c)
  show ?case
  proof (cases "i < length toEmbed \<and> \<not> shouldStop env i")
    case True
    then have "toEmbed ! i \<in> set toEmbed" by simp
    with "1.prems"(3) have "itemId (toEmbed ! i) = j \<longrightarrow> embedding r = None" by blast
    from embedItem_keeps [OF "1.prems"(1,2) this, of env]
    obtain r'' where r'': "getHash j (embedItem env (toEmbed ! i) c) = Some (Rec r'')"
      "keepsFields r r''" by blast
    have "clipLoop env toEmbed i c =
        clipLoop env toEmbed (i + EMBED_CHUNK_SIZE) (embedItem env (toEmbed ! i) c)"
      using True by (subst clipLoop.simps) simp
    moreover have "\<exists>r3. getHash j (clipLoop env toEmbed (i + EMBED_CHUNK_SIZE)
        (embedItem env (toEmbed ! i) c)) = Some (Rec r3) \<and> keepsFields r r3"
      using True r'' "1.prems"(3) by (intro "1.IH") auto
    ultimately show ?thesis by simp
  next
    case False
    then have "clipLoop env toEmbed i c = c" by (subst clipLoop.simps) auto
    with "1.prems" show ?thesis by auto
  qed
qed

lemma indexClip_keeps:
  assumes "getHash j c = Some (Rec r)"
  shows "\<exists>r'. getHash j (indexClip env libItems c) = Some (Rec r') \<and> keepsFields r r'"
proof -
  define toEmbed where
    "toEmbed = filter (\<lambda>item. isImageType (itemExt item) \<and>
                         (case getHash (itemId item) c of
                            None \<Rightarrow> False
                          | Some (Rec cached) \<Rightarrow> embedding cached = None
                          | Some _ \<Rightarrow> True)) libItems"
  have self: "keepsFields r r" by (simp add: keepsFields_def)
  have sel: "\<forall>item\<in>set toEmbed. itemId item = j \<longrightarrow> embedding r = None"
    using assms by (auto simp: toEmbed_def)
  show ?thesis
  proof (cases "embedderReady env \<and> toEmbed \<noteq> []")
    case True
    then have "indexClip env libItems c = flush (clipLoop env toEmbed 0 c)"
      by (simp add: indexClip_def toEmbed_def [symmetric] Let_def)
    then show ?thesis
      using clipLoop_keeps [OF assms self sel, of env 0] by (simp add: getHash_flush)
  next
    case False
    then have "indexClip env libItems c = c"
      by (auto simp: indexClip_def toEmbed_def [symmetric] Let_def)
    with assms self show ?thesis by auto
  qed
qed

lemma isImageType_PNG: "isImageType (Some ''PNG'')"
  by (simp add: isImageType_def falsyStr_def toLowerCase_def lowerTable_def
      IMAGE_EXTENSIONS_def)

lemma hasValidHash_cacheEx: "hasValidHash ''A'' cacheEx"
  by (simp add: hasValidHash_def cacheEx_def getItem_def recA_def falsyStr_def)

text \<open>
  Claim C3. A run of \<^verbatim>\<open>_indexPhash\<close> in which every image item is already
  fingerprint-complete returns before \<^verbatim>\<open>removeOrphans\<close> is called: with the library
  reduced to the item \<open>A\<close>, the record of the removed item \<open>B\<close> stays in the cache,
  whatever the collaborators do. (\<open>indexPhash_prunes_when_work\<close> shows that a run with
  at least one item to fingerprint does remove the orphans.)
\<close>

theorem indexPhash_keeps_orphan:
  "indexPhash env [itemA] cacheEx = cacheEx \<and>
   getHash ''B'' (indexPhash env [itemA] cacheEx) = Some (Rec recB) \<and>
   ''B'' \<notin> set (map itemId [itemA])"
proof -
  have "\<forall>item\<in>set [itemA]. isImageType (itemExt item) \<longrightarrow> hasValidHash (itemId item) cacheEx"
    using hasValidHash_cacheEx by (simp add: itemA_def)
  then have same: "indexPhash env [itemA] cacheEx = cacheEx"
    by (rule indexPhash_all_indexed)
  have "getHash ''B'' cacheEx = Some (Rec recB)"
    by (simp add: getHash_def cacheEx_def getItem_def)
  with same show ?thesis by (simp add: itemA_def)
qed

text \<open>
  Claim C4, as the code has it. The fingerprint phase leaves the record of every library
  item that is fingerprint-complete as it is, its embedding included; the embedding phase
  keeps the \<^verbatim>\<open>pHash\<close>, \<^verbatim>\<open>colorHistogram\<close> and \<^verbatim>\<open>ext\<close> of every record and leaves an
  embedding that is present as it is.
\<close>

theorem indexer_keeps_records:
  "(hasValidHash j c \<and> j \<in> set (map itemId libItems) \<longrightarrow>
      getHash j (indexPhash env libItems c) = getHash j c) \<and>
   (getHash j c = Some (Rec r) \<longrightarrow>
      (\<exists>r'. getHash j (indexClip env libItems c) = Some (Rec r') \<and>
            pHash r' = pHash r \<and> colorHistogram r' = colorHistogram r \<and> ext r' = ext r \<and>
            (embedding r \<noteq> None \<longrightarrow> embedding r' = embedding r)))"
proof (intro conjI impI)
  assume "hasValidHash j c \<and> j \<in> set (map itemId libItems)"
  then show "getHash j (indexPhash env libItems c) = getHash j c"
    using indexPhash_complete_unchanged by blast
next
  assume "getHash j c = Some (Rec r)"
  then show "\<exists>r'. getHash j (indexClip env libItems c) = Some (Rec r') \<and>
            pHash r' = pHash r \<and> colorHistogram r' = colorHistogram r \<and> ext r' = ext r \<and>
            (embedding r \<noteq> None \<longrightarrow> embedding r' = embedding r)"
    using indexClip_keeps [of j c r env libItems] by (simp add: keepsFields_def)
qed

lemma getHash_cacheEx2:
  "getHash ''A'' cacheEx2 = Some (Rec recNoHash)" "getHash ''B'' cacheEx2 = Some (Rec recB)"
  by (simp_all add: getHash_def cacheEx2_def getItem_def)

lemma toIndex_cacheEx2:
  "filter (\<lambda>item. isImageType (itemExt item) \<and> \<not> hasValidHash (itemId item) cacheEx2)
     [itemA, itemB] = [itemA]"
  by (simp add: isImageType_PNG itemA_def itemB_def hasValidHash_def cacheEx2_def getItem_def
      recNoHash_def recB_def falsyStr_def)

lemma removeOrphans_cacheEx2:
  "removeOrphans (map itemId [itemA, itemB]) cacheEx2 = cacheEx2"
  by (simp add: removeOrphans_def cacheEx2_def itemA_def itemB_def)

lemma hashItem_cacheEx2:
  "getHash ''A'' (hashItem envEx itemA cacheEx2) =
     Some (Rec \<lparr>pHash = Some ''ff'', colorHistogram = Some [1, 0], embedding = None,
                ext = Some ''PNG''\<rparr>)"
proof -
  have "data cacheEx2 \<noteq> None" by (simp add: cacheEx2_def)
  then show ?thesis
    by (simp add: hashItem_def getHashPath_def itemA_def falsyStr_def envEx_def
        getHash_setHash_same)
qed

lemma phashLoop_cacheEx2:
  "phashLoop envEx [itemA] 0 cacheEx2 = hashItem envEx itemA cacheEx2"
proof -
  have "phashLoop envEx [itemA] 0 cacheEx2 =
      phashLoop envEx [itemA] (0 + CHUNK_SIZE) (hashItem envEx itemA cacheEx2)"
    by (subst phashLoop.simps) (simp add: envEx_def CHUNK_SIZE_def Let_def)
  also have "\<dots> = hashItem envEx itemA cacheEx2"
    by (subst phashLoop.simps) (simp add: CHUNK_SIZE_def)
  finally show ?thesis .
qed

text \<open>
  The write of the fingerprint phase does not merge the record it replaces: for the item
  \<open>A\<close>, whose record has an embedding and no fingerprint, the record written has no
  embedding.
\<close>

theorem indexPhash_drops_embedding:
  "getHash ''A'' cacheEx2 = Some (Rec recNoHash) \<and>
   embedding recNoHash = Some [1, 0] \<and>
   getHash ''A'' (indexPhash envEx [itemA, itemB] cacheEx2) =
     Some (Rec \<lparr>pHash = Some ''ff'', colorHistogram = Some [1, 0], embedding = None,
                ext = Some ''PNG''\<rparr>)"
proof -
  have "indexPhash envEx [itemA, itemB] cacheEx2 = flush (hashItem envEx itemA cacheEx2)"
    unfolding indexPhash_def Let_def toIndex_cacheEx2 removeOrphans_cacheEx2
    by (simp add: phashLoop_cacheEx2)
  then show ?thesis
    by (simp add: getHash_flush hashItem_cacheEx2 getHash_cacheEx2 recNoHash_def)
qed

lemma hasValidHash_B: "hasValidHash ''B'' cacheEx2"
  by (simp add: hasValidHash_def cacheEx2_def getItem_def recB_def falsyStr_def)

theorem indexer_keeps_records_witness:
  "hasValidHash ''B'' cacheEx2 \<and> ''B'' \<in> set (map itemId [itemA, itemB]) \<and>
   getHash ''B'' (indexPhash envEx [itemA, itemB] cacheEx2) = Some (Rec recB) \<and>
   getHash ''A'' cacheEx = Some (Rec recA) \<and> embedding recA \<noteq> None \<and>
   (\<exists>r'. getHash ''A'' (indexClip envEx [itemA] cacheEx) = Some (Rec r') \<and>
         pHash r' = pHash recA \<and> colorHistogram r' = colorHistogram recA \<and>
         ext r' = ext recA \<and> embedding r' = embedding recA) \<and>
   getHash ''B'' cacheEx2 = Some (Rec recB) \<and>
   (\<exists>r'. getHash ''B'' (indexClip envEx [itemA, itemB] cacheEx2) = Some (Rec r') \<and>
         pHash r' = pHash recB \<and> colorHistogram r' = colorHistogram recB \<and>
         ext r' = ext recB)"
proof -
  have a: "getHash ''A'' cacheEx = Some (Rec recA)"
    by (simp add: getHash_def cacheEx_def getItem_def)
  have e: "embedding recA \<noteq> None" by (simp add: recA_def)
  have m: "''B'' \<in> set (map itemId [itemA, itemB])" by (simp add: itemB_def)
  show ?thesis
    using hasValidHash_B m a e getHash_cacheEx2(2)
      indexer_keeps_records [of "''B''" cacheEx2 "[itemA, itemB]" envEx recB]
      indexer_keeps_records [of "''A''" cacheEx "[itemA]" envEx recA]
    by auto
qed

lemma indexClip_example:
  "getHash ''B'' (indexClip envEx [itemA, itemB] cacheEx2) =
     Some (Rec (recB\<lparr>embedding := Some [0, 1]\<rparr>))"
proof -
  have f: "filter (\<lambda>item. isImageType (itemExt item) \<and>
                     (case getHash (itemId item) cacheEx2 of
                        None \<Rightarrow> False
                      | Some (Rec cached) \<Rightarrow> embedding cached = None
                      | Some _ \<Rightarrow> True)) [itemA, itemB] = [itemB]"
    by (simp add: itemA_def itemB_def getHash_cacheEx2 recNoHash_def recB_def isImageType_PNG
        isImageType_def falsyStr_def toLowerCase_def lowerTable_def IMAGE_EXTENSIONS_def)
  have "clipLoop envEx [itemB] 0 cacheEx2 =
      clipLoop envEx [itemB] (0 + EMBED_CHUNK_SIZE) (embedItem envEx itemB cacheEx2)"
    by (subst clipLoop.simps) (simp add: envEx_def)
  also have "\<dots> = embedItem envEx itemB cacheEx2"
    by (subst clipLoop.simps) (simp add: EMBED_CHUNK_SIZE_def)
  finally have l: "clipLoop envEx [itemB] 0 cacheEx2 = embedItem envEx itemB cacheEx2" .
  have ready: "embedderReady envEx" by (simp add: envEx_def)
  have "indexClip envEx [itemA, itemB] cacheEx2 = flush (embedItem envEx itemB cacheEx2)"
    unfolding indexClip_def Let_def f by (simp add: l ready)
  moreover have "data cacheEx2 \<noteq> None" by (simp add: cacheEx2_def)
  then have "getHash ''B'' (embedItem envEx itemB cacheEx2) =
      Some (Rec (recB\<lparr>embedding := Some [0, 1]\<rparr>))"
    by (simp add: embedItem_def getHashPath_def itemB_def falsyStr_def envEx_def
        getHash_cacheEx2 getHash_setHash_same Let_def)
  ultimately show ?thesis by (simp add: getHash_flush)
qed

end
